theory Spec2Isabelle
  imports Complex_Main
begin

section \<open>Size distributions of py\_aps\_smps: bins, boundaries and their combination\<close>

text \<open>
  The development embeds \<^verbatim>\<open>src/py_aps_smps/lib/sd_processing/structure.py\<close>.
  A size distribution is a pandas DataFrame there; here it is the list of its rows in
  positional order, and since every frame the combiner works on has just been through
  \<^verbatim>\<open>reset_index(drop=True)\<close>, the index label of a row is its position in the list.

  Numbers are IEEE doubles in the program and \<^typ>\<open>real\<close> here: rounding, overflow and
  the infinities are not modelled. A cell that holds NaN (the \<^verbatim>\<open>dn\<close> and
  \<^verbatim>\<open>dndlogd\<close> of a freshly created gap bin) is \<^term>\<open>None\<close>.
\<close>

subsection \<open>Rows\<close>

datatype provenance = Smps | Aps | Interpolated | Merged

record bin =
  flag :: provenance
  dpes :: real
  dpes_lower :: real
  dpes_upper :: real
  dn :: "real option"
  dndlogd :: "real option"

datatype error =
    ValueError       \<comment> \<open>\<^verbatim>\<open>max()\<close>/\<open>min()\<close> of an empty sequence, columns of unequal length\<close>
  | AssertionError   \<comment> \<open>the \<^verbatim>\<open>assert len(aps_bin) == 1\<close> of the left-edge case\<close>
  | IndexError       \<comment> \<open>\<^verbatim>\<open>iloc[0]\<close> on an empty slice\<close>
  | NonFiniteRound   \<comment> \<open>\<^verbatim>\<open>round()\<close> of an infinity or a NaN (OverflowError or ValueError)\<close>

subsection \<open>Arithmetic on cells that may hold NaN\<close>

definition nan_add :: "real option \<Rightarrow> real option \<Rightarrow> real option" where
  "nan_add a b = (case a of None \<Rightarrow> None | Some x \<Rightarrow> map_option (\<lambda>y. x + y) b)"

definition nan_mul :: "real option \<Rightarrow> real \<Rightarrow> real option" where
  "nan_mul a k = map_option (\<lambda>x. x * k) a"

definition nan_times :: "real \<Rightarrow> real option \<Rightarrow> real option" where
  "nan_times k a = map_option (\<lambda>x. k * x) a"

definition nan_div :: "real option \<Rightarrow> real \<Rightarrow> real option" where
  "nan_div a k = map_option (\<lambda>x. x / k) a"

definition log10 :: "real \<Rightarrow> real" where
  "log10 x = log 10 x"

subsection \<open>Bin boundaries and channel resolution\<close>

text \<open>
  \<^verbatim>\<open>
  def calc_bin_boundaries(bin_mean_diameter, channel_resolution):
      bin_lower_boundary = 2 * bin_mean_diameter / (10**(1 / channel_resolution) + 1)
      bin_upper_boundary = 2 * bin_mean_diameter / (10**(-1 / channel_resolution) + 1)
      return (bin_lower_boundary, bin_upper_boundary)
  \<close>
\<close>

definition calc_bin_boundaries :: "real \<Rightarrow> real \<Rightarrow> real \<times> real" where
  "calc_bin_boundaries bin_mean_diameter channel_resolution =
     (let bin_lower_boundary = 2 * bin_mean_diameter / (10 powr (1 / channel_resolution) + 1);
          bin_upper_boundary = 2 * bin_mean_diameter / (10 powr (- 1 / channel_resolution) + 1)
      in (bin_lower_boundary, bin_upper_boundary))"

text \<open>
  \<^verbatim>\<open>
  def get_channel_resolution(data, x_axis='dpes'):
      return len(data) / (np.log10(data[x_axis].max()) - np.log10(data[x_axis].min()))
  \<close>
  The division is numpy's: on a zero span (one bin, or all bins on one diameter) it
  returns an infinity rather than raising, and pandas gives NaN for the extrema of an
  empty frame. Both are \<^term>\<open>None\<close> here: "not a finite number".
\<close>

definition get_channel_resolution :: "bin list \<Rightarrow> real option" where
  "get_channel_resolution data =
     (case map dpes data of
        [] \<Rightarrow> None
      | x # xs \<Rightarrow>
          (let span = log10 (fold max xs x) - log10 (fold min xs x)
           in if span = 0 then None else Some (real (length data) / span)))"

subsection \<open>Python and pandas primitives\<close>

text \<open>The builtins \<^verbatim>\<open>max\<close> and \<^verbatim>\<open>min\<close> raise ValueError on an empty sequence.\<close>

definition py_max :: "real list \<Rightarrow> error + real" where
  "py_max xs = (case xs of [] \<Rightarrow> Inl ValueError | x # r \<Rightarrow> Inr (fold max r x))"

definition py_min :: "real list \<Rightarrow> error + real" where
  "py_min xs = (case xs of [] \<Rightarrow> Inl ValueError | x # r \<Rightarrow> Inr (fold min r x))"

text \<open>\<^verbatim>\<open>round(x)\<close> with one argument rounds half to even and returns an integer.\<close>

definition py_round :: "real \<Rightarrow> int" where
  "py_round x =
     (let f = \<lfloor>x\<rfloor>; d = x - of_int f
      in if d < 1 / 2 then f else if 1 / 2 < d then f + 1 else if even f then f else f + 1)"

text \<open>
  \<^verbatim>\<open>Series.idxmax()\<close> and \<^verbatim>\<open>Series.idxmin()\<close>: the label of the first
  occurrence of the extremum; ValueError on an empty series.
\<close>

definition idxmax :: "(nat \<times> real) list \<Rightarrow> error + nat" where
  "idxmax s =
     (case s of
        [] \<Rightarrow> Inl ValueError
      | p # r \<Rightarrow> Inr (fst (fold (\<lambda>q best. if snd best < snd q then q else best) r p)))"

definition idxmin :: "(nat \<times> real) list \<Rightarrow> error + nat" where
  "idxmin s =
     (case s of
        [] \<Rightarrow> Inl ValueError
      | p # r \<Rightarrow> Inr (fst (fold (\<lambda>q best. if snd q < snd best then q else best) r p)))"

text \<open>\<^verbatim>\<open>Series.mean()\<close> skips NaN; the mean of no number at all is NaN.\<close>

definition mean_skipna :: "real option list \<Rightarrow> real option" where
  "mean_skipna cells =
     (let vals = [v. Some v \<leftarrow> cells]
      in if vals = [] then None else Some (sum_list vals / real (length vals)))"

text \<open>
  \<^verbatim>\<open>np.interp(x, xp, fp)\<close> on sample points sorted by \<open>xp\<close>: constant outside
  the samples, the sample itself where \<open>x\<close> meets one, and
  \<^verbatim>\<open>slope*(x - xp[j]) + fp[j]\<close> between \<open>xp[j]\<close> and \<open>xp[j+1]\<close>.
\<close>

fun np_interp :: "(real \<times> real) list \<Rightarrow> real \<Rightarrow> real" where
  "np_interp [] x = 0"
| "np_interp [(x0, y0)] x = y0"
| "np_interp ((x0, y0) # (x1, y1) # ps) x =
     (if x < x1
      then (if x \<le> x0 then y0 else (y1 - y0) / (x1 - x0) * (x - x0) + y0)
      else np_interp ((x1, y1) # ps) x)"

text \<open>
  \<^verbatim>\<open>Series.interpolate(method='index')\<close> on a series given as its (index, value)
  pairs: the NaN cells are filled by \<^verbatim>\<open>np.interp\<close> over the cells that hold a number,
  taken in index order; NaN cells before the first number stay NaN (the default
  \<^verbatim>\<open>limit_direction='forward'\<close>), and a series without any number is returned as it is.
\<close>

definition interpolate_index :: "(real \<times> real option) list \<Rightarrow> real option list" where
  "interpolate_index s =
     (let valid = sort_key fst [(x, v). (x, Some v) \<leftarrow> s];
          first_valid = length (takeWhile (\<lambda>c. snd c = None) s)
      in map (\<lambda>(p, (x, y)).
                case y of
                  Some v \<Rightarrow> Some v
                | None \<Rightarrow> if p < first_valid \<or> valid = [] then None
                          else Some (np_interp valid x))
             (enumerate 0 s))"

text \<open>
  \<^verbatim>\<open>sd_combined.loc[label, column] = value\<close> and \<^verbatim>\<open>... += value\<close> on a frame
  whose labels are the positions: one row changes, by the given update of its cells.
\<close>

definition loc_set :: "nat \<Rightarrow> (bin \<Rightarrow> bin) \<Rightarrow> bin list \<Rightarrow> bin list" where
  "loc_set i f T = T[i := f (T ! i)]"

text \<open>
  Modelled from the spec: \<^verbatim>\<open>calc_dXdlogd_from_dX\<close> of
  \<^verbatim>\<open>py_aps_smps/lib/sd_processing/content.py\<close>, which is not among the sources. The
  specification gives it as \<open>density = count / (log10(upper) - log10(lower))\<close> when it
  is called with explicit bin boundaries, the only way the combiner calls it.
\<close>

definition calc_dXdlogd_from_dX :: "real option \<Rightarrow> real \<Rightarrow> real \<Rightarrow> real option" where
  "calc_dXdlogd_from_dX dX bins_lower bins_upper =
     nan_div dX (log10 bins_upper - log10 bins_lower)"

text \<open>
  \<^verbatim>\<open>frame.loc[a:b]\<close> on labels \<open>0..n-1\<close>: the rows labelled \<open>a\<close> to \<open>b\<close>, both
  ends included; a bound outside the labels is clipped, and \<open>b < a\<close> gives no row.
\<close>

definition loc_slice :: "int \<Rightarrow> int \<Rightarrow> 'a list \<Rightarrow> 'a list" where
  "loc_slice a b T = take (nat (b + 1 - max a 0)) (drop (nat a) T)"

text \<open>\<^verbatim>\<open>frame.drop(labels)\<close>: the rows whose label is not listed.\<close>

definition drop_labels :: "nat list \<Rightarrow> 'a list \<Rightarrow> 'a list" where
  "drop_labels labels T = map snd (filter (\<lambda>(i, b). i \<notin> set labels) (enumerate 0 T))"

text \<open>
  \<^verbatim>\<open>np.logspace(start, stop, num, endpoint=False)\<close>: \<open>10\<close> to the power of
  \<^verbatim>\<open>arange(num) * ((stop - start) / num) + start\<close>.
\<close>

definition logspace :: "real \<Rightarrow> real \<Rightarrow> nat \<Rightarrow> real list" where
  "logspace start stop num =
     map (\<lambda>i. 10 powr (real i * ((stop - start) / real num) + start)) [0..<num]"

subsection \<open>Interpolating a gap (lines 68--134)\<close>

text \<open>
  \<^verbatim>\<open>(get_channel_resolution(sd_smps) + get_channel_resolution(sd_aps)) // 2\<close>: floor
  division of floats; not finite as soon as one resolution is not.
\<close>

definition get_interpol_resolution :: "bin list \<Rightarrow> bin list \<Rightarrow> real option" where
  "get_interpol_resolution sd_smps sd_aps =
     (case (get_channel_resolution sd_smps, get_channel_resolution sd_aps) of
        (Some rs, Some ra) \<Rightarrow> Some (of_int \<lfloor>(rs + ra) / 2\<rfloor>)
      | _ \<Rightarrow> None)"

text \<open>
  \<^verbatim>\<open>
  def get_bin_boundaries_in_interval(x_start, x_end, res):
      decades_in_x_range = np.log10(x_end) - np.log10(x_start)
      bin_num = round(res * decades_in_x_range)
      bin_bound_lower = np.logspace(start=np.log10(x_start), stop=np.log10(x_end),
                                    num=bin_num, endpoint=False)
      bin_bound_upper = np.append(bin_bound_lower[1:], x_end)
      return (bin_bound_lower, bin_bound_upper)
  \<close>
  \<^verbatim>\<open>round\<close> raises on a resolution that is not finite, \<^verbatim>\<open>np.logspace\<close> on a
  negative number of samples.
\<close>

definition get_bin_boundaries_in_interval ::
  "real \<Rightarrow> real \<Rightarrow> real option \<Rightarrow> error + (real list \<times> real list)" where
  "get_bin_boundaries_in_interval x_start x_end res =
     (case res of
        None \<Rightarrow> Inl NonFiniteRound
      | Some r \<Rightarrow>
          (let decades_in_x_range = log10 x_end - log10 x_start;
               bin_num = py_round (r * decades_in_x_range)
           in if bin_num < 0 then Inl ValueError
              else (let bin_bound_lower = logspace (log10 x_start) (log10 x_end) (nat bin_num);
                        bin_bound_upper = drop 1 bin_bound_lower @ [x_end]
                    in Inr (bin_bound_lower, bin_bound_upper))))"

text \<open>
  Lines 98 and 99, the smoothed anchors:
  \<^verbatim>\<open>
  sd_gapped.loc[edge_bin_min_idx - edge_average_window: edge_bin_min_idx].dndlogd.mean()
  sd_gapped.loc[edge_bin_max_idx: edge_bin_max_idx + edge_average_window].dndlogd.mean()
  \<close>
\<close>

definition edge_bin_min_dndlogd_avg :: "bin list \<Rightarrow> nat \<Rightarrow> nat \<Rightarrow> real option" where
  "edge_bin_min_dndlogd_avg sd_gapped edge_bin_min_idx edge_average_window =
     mean_skipna (map dndlogd
       (loc_slice (int edge_bin_min_idx - int edge_average_window) (int edge_bin_min_idx) sd_gapped))"

definition edge_bin_max_dndlogd_avg :: "bin list \<Rightarrow> nat \<Rightarrow> nat \<Rightarrow> real option" where
  "edge_bin_max_dndlogd_avg sd_gapped edge_bin_max_idx edge_average_window =
     mean_skipna (map dndlogd
       (loc_slice (int edge_bin_max_idx) (int edge_bin_max_idx + int edge_average_window) sd_gapped))"

text \<open>
  Lines 92 and 93, the two edge bins: the SMPS row of largest upper boundary and the APS
  row of smallest lower boundary, by label.
  \<^verbatim>\<open>
  edge_bin_min_idx = sd_gapped[(sd_gapped.flag == 'smps')].dpes_upper.idxmax()
  edge_bin_max_idx = sd_gapped[(sd_gapped.flag == 'aps')].dpes_lower.idxmin()
  \<close>
\<close>

definition edge_bin_min_idx :: "bin list \<Rightarrow> error + nat" where
  "edge_bin_min_idx sd_gapped =
     idxmax [(i, dpes_upper b). (i, b) \<leftarrow> enumerate 0 sd_gapped, flag b = Smps]"

definition edge_bin_max_idx :: "bin list \<Rightarrow> error + nat" where
  "edge_bin_max_idx sd_gapped =
     idxmin [(i, dpes_lower b). (i, b) \<leftarrow> enumerate 0 sd_gapped, flag b = Aps]"

text \<open>
  Lines 102--105: the slice from edge bin to edge bin, with the two anchors written into
  its first and its last row.
\<close>

definition gap_with_edges :: "bin list \<Rightarrow> nat \<Rightarrow> nat \<Rightarrow> nat \<Rightarrow> bin list" where
  "gap_with_edges sd_gapped min_idx max_idx edge_average_window =
     (let g = loc_slice (int min_idx) (int max_idx) sd_gapped;
          g = loc_set 0
                (\<lambda>r. r\<lparr>dndlogd := edge_bin_min_dndlogd_avg sd_gapped min_idx edge_average_window\<rparr>) g
      in loc_set (length g - 1)
           (\<lambda>r. r\<lparr>dndlogd := edge_bin_max_dndlogd_avg sd_gapped max_idx edge_average_window\<rparr>) g)"

text \<open>
  \<^verbatim>\<open>interpolate_dndlogd_gap(sd_gapped, edge_average_window=3)\<close>, lines 90--115. The
  slice is interpolated over its \<open>dpes\<close> column as index
  (\<^verbatim>\<open>gap_with_edges.set_index('dpes')['dndlogd'].interpolate(method='index')\<close>), its
  values are written back into a copy of the frame, and the two edge rows of the copy
  get their own densities again. \<^verbatim>\<open>iloc[0]\<close> raises IndexError on an empty slice.
\<close>

definition interpolate_dndlogd_gap :: "bin list \<Rightarrow> nat \<Rightarrow> error + bin list" where
  "interpolate_dndlogd_gap sd_gapped edge_average_window =
     (case edge_bin_min_idx sd_gapped of
        Inl e \<Rightarrow> Inl e
      | Inr min_idx \<Rightarrow>
     (case edge_bin_max_idx sd_gapped of
        Inl e \<Rightarrow> Inl e
      | Inr max_idx \<Rightarrow>
          if loc_slice (int min_idx) (int max_idx) sd_gapped = [] then Inl IndexError
          else
           (let edge_bin_min_dndlogd_0 = dndlogd (sd_gapped ! min_idx);
                edge_bin_max_dndlogd_0 = dndlogd (sd_gapped ! max_idx);
                filled = interpolate_index
                           (map (\<lambda>r. (dpes r, dndlogd r))
                              (gap_with_edges sd_gapped min_idx max_idx edge_average_window));
                sd_interpolated_dndlogd =
                  take min_idx sd_gapped
                  @ map2 (\<lambda>r v. r\<lparr>dndlogd := v\<rparr>)
                      (loc_slice (int min_idx) (int max_idx) sd_gapped) filled
                  @ drop (Suc max_idx) sd_gapped;
                sd_interpolated_dndlogd =
                  loc_set min_idx (\<lambda>r. r\<lparr>dndlogd := edge_bin_min_dndlogd_0\<rparr>)
                    sd_interpolated_dndlogd
            in Inr (loc_set max_idx (\<lambda>r. r\<lparr>dndlogd := edge_bin_max_dndlogd_0\<rparr>)
                      sd_interpolated_dndlogd))))"

text \<open>
  Lines 117--134: the new bin grid over the gap, appended (the pandas constructor raises
  ValueError when its columns differ in length, which is the case for a grid of no bin),
  the frame sorted by \<open>dpes\<close>, the densities interpolated, and then
  \<^verbatim>\<open>sd_combined['dn'] = sd_combined['dndlogd'] * (np.log10(sd_combined['dpes_upper']) - np.log10(sd_combined['dpes_lower']))\<close>,
  an assignment to the whole column. \<^verbatim>\<open>sort_values\<close> is \<^const>\<open>sort_key\<close> here; the
  order pandas leaves rows of equal \<open>dpes\<close> in is not modelled.
\<close>

definition interpolate_gap_branch :: "bin list \<Rightarrow> bin list \<Rightarrow> bin list \<Rightarrow> error + bin list" where
  "interpolate_gap_branch sd_smps sd_aps sd_combined =
     (case py_max (map dpes_upper sd_smps) of
        Inl e \<Rightarrow> Inl e
      | Inr interpol_dpes_range_start \<Rightarrow>
     (case py_min (map dpes_lower sd_aps) of
        Inl e \<Rightarrow> Inl e
      | Inr interpol_dpes_range_end \<Rightarrow>
     (case get_bin_boundaries_in_interval interpol_dpes_range_start interpol_dpes_range_end
             (get_interpol_resolution sd_smps sd_aps) of
        Inl e \<Rightarrow> Inl e
      | Inr (interpol_dpes_bins_lower, interpol_dpes_bins_upper) \<Rightarrow>
          if length interpol_dpes_bins_lower \<noteq> length interpol_dpes_bins_upper then Inl ValueError
          else
           (let interpolated_bins =
                  map2 (\<lambda>l u. \<lparr>flag = Interpolated, dpes = (l + u) / 2, dpes_lower = l,
                                dpes_upper = u, dn = None, dndlogd = None\<rparr>)
                    interpol_dpes_bins_lower interpol_dpes_bins_upper;
                sd_combined = sort_key dpes (sd_combined @ interpolated_bins)
            in case interpolate_dndlogd_gap sd_combined 3 of
                 Inl e \<Rightarrow> Inl e
               | Inr sd_combined \<Rightarrow>
                   Inr (map (\<lambda>r. r\<lparr>dn := nan_mul (dndlogd r)
                                            (log10 (dpes_upper r) - log10 (dpes_lower r))\<rparr>)
                          sd_combined)))))"

subsection \<open>Merging an overlap (lines 137--233)\<close>

text \<open>
  The loop body reads the APS bin from \<open>aps_overlap\<close> and the SMPS bin from
  \<open>smps_overlap\<close>, two frames selected from \<open>sd_combined\<close> before the loop starts
  (a boolean selection copies), and writes into \<open>sd_combined\<close> cell by cell. The four
  blocks of assignments follow; \<open>name\<close> is \<^verbatim>\<open>aps_bin.name\<close>, the label of the row.

  Lines 156--171, the first SMPS bin reaching into the smallest APS bin:
\<close>

definition merge_left_edge :: "bin \<Rightarrow> nat \<Rightarrow> bin \<Rightarrow> bin list \<Rightarrow> bin list" where
  "merge_left_edge smps_bin name aps_bin sd_combined =
     (let smps_bin_width = dpes_upper smps_bin - dpes_lower smps_bin;
          aps_bin_width = dpes_upper aps_bin - dpes_lower aps_bin;
          smps_only_width = dpes_lower aps_bin - dpes_lower smps_bin;
          overlap_width = dpes_upper smps_bin - dpes_lower aps_bin;
          aps_only_width = dpes_upper aps_bin - dpes_upper smps_bin;
          T = loc_set name (\<lambda>r. r\<lparr>dpes_lower := dpes_lower smps_bin\<rparr>) sd_combined;
          T = loc_set name (\<lambda>r. r\<lparr>dpes_upper := dpes_upper aps_bin\<rparr>) T;
          T = loc_set name (\<lambda>r. r\<lparr>dpes := (dpes_lower smps_bin + dpes_upper aps_bin) / 2\<rparr>) T;
          T = loc_set name (\<lambda>r. r\<lparr>dn := nan_mul (dn smps_bin) (smps_only_width / smps_bin_width)\<rparr>) T;
          T = loc_set name
                (\<lambda>r. r\<lparr>dn := nan_add (dn r) (nan_mul (dn aps_bin) (aps_only_width / aps_bin_width))\<rparr>) T;
          T = loc_set name
                (\<lambda>r. r\<lparr>dn := nan_add (dn r)
                   (nan_add
                      (nan_div (nan_mul (nan_times (1 / 2) (dn smps_bin)) overlap_width) smps_bin_width)
                      (nan_div (nan_mul (nan_times (1 / 2) (dn aps_bin)) overlap_width) aps_bin_width))\<rparr>) T
      in loc_set name (\<lambda>r. r\<lparr>flag := Merged\<rparr>) T)"

text \<open>Lines 181--190, subcase 1: the SMPS bin is embraced by one APS bin.\<close>

definition merge_embraced :: "bin \<Rightarrow> nat \<Rightarrow> bin \<Rightarrow> bin list \<Rightarrow> bin list" where
  "merge_embraced smps_bin name aps_bin sd_combined =
     (let smps_bin_width = dpes_upper smps_bin - dpes_lower smps_bin;
          aps_bin_width = dpes_upper aps_bin - dpes_lower aps_bin;
          T = loc_set name (\<lambda>r. r\<lparr>dpes_lower := dpes_lower aps_bin\<rparr>) sd_combined;
          T = loc_set name (\<lambda>r. r\<lparr>dpes_upper := dpes_upper aps_bin\<rparr>) T;
          T = loc_set name (\<lambda>r. r\<lparr>dpes := dpes aps_bin\<rparr>) T;
          T = loc_set name
                (\<lambda>r. r\<lparr>dn := nan_div (nan_mul (dn aps_bin) (aps_bin_width - smps_bin_width))
                                aps_bin_width\<rparr>) T;
          T = loc_set name
                (\<lambda>r. r\<lparr>dn := nan_add (dn r)
                   (nan_div (nan_add (nan_mul (dn aps_bin) (smps_bin_width / aps_bin_width))
                                     (dn smps_bin)) 2)\<rparr>) T
      in loc_set name (\<lambda>r. r\<lparr>flag := Merged\<rparr>) T)"

text \<open>
  Lines 197--226, subcase 2: the SMPS bin lies over the boundary between two APS bins.
  The two blocks differ in how the widths are measured only.
\<close>

definition merge_boundary :: "bin \<Rightarrow> nat \<Rightarrow> bin \<Rightarrow> real \<Rightarrow> real \<Rightarrow> bin list \<Rightarrow> bin list" where
  "merge_boundary smps_bin name aps_bin aps_only_width overlap_width sd_combined =
     (let smps_bin_width = dpes_upper smps_bin - dpes_lower smps_bin;
          aps_bin_width = dpes_upper aps_bin - dpes_lower aps_bin;
          T = loc_set name (\<lambda>r. r\<lparr>dpes_lower := dpes_lower aps_bin\<rparr>) sd_combined;
          T = loc_set name (\<lambda>r. r\<lparr>dpes_upper := dpes_upper aps_bin\<rparr>) T;
          T = loc_set name (\<lambda>r. r\<lparr>dpes := dpes aps_bin\<rparr>) T;
          T = loc_set name (\<lambda>r. r\<lparr>dn := nan_mul (dn aps_bin) (aps_only_width / aps_bin_width)\<rparr>) T;
          T = loc_set name
                (\<lambda>r. r\<lparr>dn := nan_add (dn r)
                   (nan_div (nan_add (nan_mul (dn aps_bin) (overlap_width / aps_bin_width))
                                     (nan_mul (dn smps_bin) (overlap_width / smps_bin_width))) 2)\<rparr>) T
      in loc_set name (\<lambda>r. r\<lparr>flag := Merged\<rparr>) T)"

definition merge_boundary_first :: "bin \<Rightarrow> nat \<Rightarrow> bin \<Rightarrow> bin list \<Rightarrow> bin list" where
  "merge_boundary_first smps_bin name aps_bin sd_combined =
     merge_boundary smps_bin name aps_bin
       (dpes_lower smps_bin - dpes_lower aps_bin) (dpes_upper aps_bin - dpes_lower smps_bin)
       sd_combined"

definition merge_boundary_second :: "bin \<Rightarrow> nat \<Rightarrow> bin \<Rightarrow> bin list \<Rightarrow> bin list" where
  "merge_boundary_second smps_bin name aps_bin sd_combined =
     merge_boundary smps_bin name aps_bin
       (dpes_upper aps_bin - dpes_upper smps_bin) (dpes_upper smps_bin - dpes_lower aps_bin)
       sd_combined"

text \<open>
  One pass of the loop body (lines 149--228) for the SMPS bin \<open>smps_bin\<close>. The branch
  is chosen by comparisons with the frame \<open>aps_overlap\<close>; an SMPS bin that meets
  neither the \<^verbatim>\<open>if\<close> nor the \<^verbatim>\<open>elif\<close>, or meets the \<^verbatim>\<open>elif\<close> with a
  selection of neither one nor two APS bins, leaves \<open>sd_combined\<close> as it is.
\<close>

definition merge_bin :: "(nat \<times> bin) list \<Rightarrow> bin \<Rightarrow> bin list \<Rightarrow> error + bin list" where
  "merge_bin aps_overlap smps_bin sd_combined =
     (case py_min (map (\<lambda>a. dpes_lower (snd a)) aps_overlap) of
        Inl e \<Rightarrow> Inl e
      | Inr aps_lower_min \<Rightarrow>
          if dpes_lower smps_bin < aps_lower_min
          then (case filter (\<lambda>a. dpes_lower (snd a) < dpes_upper smps_bin) aps_overlap of
                  [(name, aps_bin)] \<Rightarrow> Inr (merge_left_edge smps_bin name aps_bin sd_combined)
                | _ \<Rightarrow> Inl AssertionError)
          else
           (case py_max (map (\<lambda>a. dpes_upper (snd a)) aps_overlap) of
              Inl e \<Rightarrow> Inl e
            | Inr aps_upper_max \<Rightarrow>
                if aps_lower_min < dpes_lower smps_bin \<and> dpes_upper smps_bin < aps_upper_max
                then (case filter (\<lambda>a. dpes_lower smps_bin < dpes_upper (snd a)
                                        \<and> dpes_lower (snd a) < dpes_upper smps_bin) aps_overlap of
                        [(name, aps_bin)] \<Rightarrow> Inr (merge_embraced smps_bin name aps_bin sd_combined)
                      | [(name1, aps_bin1), (name2, aps_bin2)] \<Rightarrow>
                          Inr (merge_boundary_second smps_bin name2 aps_bin2
                                 (merge_boundary_first smps_bin name1 aps_bin1 sd_combined))
                      | _ \<Rightarrow> Inr sd_combined)
                else Inr sd_combined))"

text \<open>The loop over \<^verbatim>\<open>smps_overlap.itertuples()\<close>; an exception ends it.\<close>

fun merge_loop :: "(nat \<times> bin) list \<Rightarrow> bin list \<Rightarrow> bin list \<Rightarrow> error + bin list" where
  "merge_loop aps_overlap [] sd_combined = Inr sd_combined"
| "merge_loop aps_overlap (smps_bin # rest) sd_combined =
     (case merge_bin aps_overlap smps_bin sd_combined of
        Inl e \<Rightarrow> Inl e
      | Inr sd_combined' \<Rightarrow> merge_loop aps_overlap rest sd_combined')"

text \<open>
  Lines 141--145, the two selections. \<^verbatim>\<open>where(...)\<close> blanks the rows of the other
  flag with NaN, which no comparison holds of.
\<close>

definition aps_overlap_of :: "bin list \<Rightarrow> error + (nat \<times> bin) list" where
  "aps_overlap_of sd_combined =
     (case py_max [dpes_upper b. b \<leftarrow> sd_combined, flag b = Smps] of
        Inl e \<Rightarrow> Inl e
      | Inr smps_upper_max \<Rightarrow>
          Inr (filter (\<lambda>(i, b). flag b = Aps \<and> dpes_lower b < smps_upper_max)
                 (enumerate 0 sd_combined)))"

definition smps_overlap_of :: "bin list \<Rightarrow> error + (nat \<times> bin) list" where
  "smps_overlap_of sd_combined =
     (case py_min [dpes_lower b. b \<leftarrow> sd_combined, flag b = Aps] of
        Inl e \<Rightarrow> Inl e
      | Inr aps_lower_min \<Rightarrow>
          Inr (filter (\<lambda>(i, b). flag b = Smps \<and> aps_lower_min < dpes_upper b)
                 (enumerate 0 sd_combined)))"

text \<open>
  Lines 137--233: every overlapping SMPS bin goes through the loop and is then dropped
  (\<^verbatim>\<open>merged_indices.append(smps_bin.Index)\<close> is the last statement of the body,
  whatever branch ran), and the frame is sorted by \<open>dpes\<close>.
\<close>

definition merge_overlap_branch :: "bin list \<Rightarrow> error + bin list" where
  "merge_overlap_branch sd_combined =
     (case smps_overlap_of sd_combined of
        Inl e \<Rightarrow> Inl e
      | Inr smps_overlap \<Rightarrow>
     (case aps_overlap_of sd_combined of
        Inl e \<Rightarrow> Inl e
      | Inr aps_overlap \<Rightarrow>
     (case merge_loop aps_overlap (map snd smps_overlap) sd_combined of
        Inl e \<Rightarrow> Inl e
      | Inr sd_combined' \<Rightarrow>
          Inr (sort_key dpes (drop_labels (map fst smps_overlap) sd_combined')))))"

subsection \<open>The combiner\<close>

text \<open>
  Lines 235--238: the density of every row that is neither \<open>smps\<close> nor \<open>aps\<close> is
  computed again from its count and its boundaries.
\<close>

definition recompute_modified :: "bin list \<Rightarrow> bin list" where
  "recompute_modified sd_combined =
     map (\<lambda>r. if flag r \<noteq> Smps \<and> flag r \<noteq> Aps
               then r\<lparr>dndlogd := calc_dXdlogd_from_dX (dn r) (dpes_lower r) (dpes_upper r)\<rparr>
               else r)
       sd_combined"

text \<open>
  \<^verbatim>\<open>combine_SMPS_APS_sd(sd_aps, sd_smps, merge_overlap=True, interpolate_gap=True)\<close>.
  The two inputs get their flag column, are concatenated SMPS first, and the two range
  tests of lines 52 and 60 use the builtins \<^verbatim>\<open>max\<close> and \<^verbatim>\<open>min\<close>, which raise
  on an empty column. \<open>verbose\<close> only prints and is left out.
\<close>

definition combine_SMPS_APS_sd :: "bin list \<Rightarrow> bin list \<Rightarrow> bool \<Rightarrow> bool \<Rightarrow> error + bin list" where
  "combine_SMPS_APS_sd sd_aps sd_smps merge_overlap interpolate_gap =
     (let sd_aps = map (\<lambda>r. r\<lparr>flag := Aps\<rparr>) sd_aps;
          sd_smps = map (\<lambda>r. r\<lparr>flag := Smps\<rparr>) sd_smps;
          sd_combined = sd_smps @ sd_aps
      in case py_max (map dpes_upper sd_smps) of
           Inl e \<Rightarrow> Inl e
         | Inr smps_upper_max \<Rightarrow>
        (case py_min (map dpes_lower sd_aps) of
           Inl e \<Rightarrow> Inl e
         | Inr aps_lower_min \<Rightarrow>
        (let flag_overlap = (aps_lower_min < smps_upper_max);
             flag_gap = (smps_upper_max < aps_lower_min)
         in case (if interpolate_gap \<and> flag_gap
                  then interpolate_gap_branch sd_smps sd_aps sd_combined
                  else Inr sd_combined) of
              Inl e \<Rightarrow> Inl e
            | Inr sd_combined \<Rightarrow>
           (case (if merge_overlap \<and> flag_overlap
                  then merge_overlap_branch sd_combined
                  else Inr sd_combined) of
              Inl e \<Rightarrow> Inl e
            | Inr sd_combined \<Rightarrow> Inr (recompute_modified sd_combined)))))"

subsection \<open>Reading the loop body\<close>

text \<open>
  What one pass of the loop body selects and writes, as functions of the two frames read
  before the loop: whether the SMPS bin takes the \<^verbatim>\<open>if\<close> of line 152, the rows of
  \<open>aps_overlap\<close> that the pass merges it into (none when no block of assignments
  runs), and the row each block leaves at the label it writes.
\<close>

definition is_left_edge :: "(nat \<times> bin) list \<Rightarrow> bin \<Rightarrow> bool" where
  "is_left_edge aps_overlap smps_bin =
     (case py_min (map (\<lambda>a. dpes_lower (snd a)) aps_overlap) of
        Inl e \<Rightarrow> False
      | Inr aps_lower_min \<Rightarrow> dpes_lower smps_bin < aps_lower_min)"

definition merge_selection :: "(nat \<times> bin) list \<Rightarrow> bin \<Rightarrow> (nat \<times> bin) list" where
  "merge_selection aps_overlap smps_bin =
     (case py_min (map (\<lambda>a. dpes_lower (snd a)) aps_overlap) of
        Inl e \<Rightarrow> []
      | Inr aps_lower_min \<Rightarrow>
          if dpes_lower smps_bin < aps_lower_min
          then (case filter (\<lambda>a. dpes_lower (snd a) < dpes_upper smps_bin) aps_overlap of
                  [t] \<Rightarrow> [t]
                | _ \<Rightarrow> [])
          else
           (case py_max (map (\<lambda>a. dpes_upper (snd a)) aps_overlap) of
              Inl e \<Rightarrow> []
            | Inr aps_upper_max \<Rightarrow>
                if aps_lower_min < dpes_lower smps_bin \<and> dpes_upper smps_bin < aps_upper_max
                then (case filter (\<lambda>a. dpes_lower smps_bin < dpes_upper (snd a)
                                        \<and> dpes_lower (snd a) < dpes_upper smps_bin) aps_overlap of
                        [t] \<Rightarrow> [t]
                      | [t1, t2] \<Rightarrow> [t1, t2]
                      | _ \<Rightarrow> [])
                else []))"

definition left_edge_row :: "bin \<Rightarrow> bin \<Rightarrow> bin \<Rightarrow> bin" where
  "left_edge_row smps_bin aps_bin r =
     r\<lparr>dpes_lower := dpes_lower smps_bin, dpes_upper := dpes_upper aps_bin,
        dpes := (dpes_lower smps_bin + dpes_upper aps_bin) / 2,
        dn := nan_add
                (nan_add
                   (nan_mul (dn smps_bin)
                      ((dpes_lower aps_bin - dpes_lower smps_bin) / (dpes_upper smps_bin - dpes_lower smps_bin)))
                   (nan_mul (dn aps_bin)
                      ((dpes_upper aps_bin - dpes_upper smps_bin) / (dpes_upper aps_bin - dpes_lower aps_bin))))
                (nan_add
                   (nan_div (nan_mul (nan_times (1 / 2) (dn smps_bin)) (dpes_upper smps_bin - dpes_lower aps_bin))
                      (dpes_upper smps_bin - dpes_lower smps_bin))
                   (nan_div (nan_mul (nan_times (1 / 2) (dn aps_bin)) (dpes_upper smps_bin - dpes_lower aps_bin))
                      (dpes_upper aps_bin - dpes_lower aps_bin))),
        flag := Merged\<rparr>"

definition embraced_row :: "bin \<Rightarrow> bin \<Rightarrow> bin \<Rightarrow> bin" where
  "embraced_row smps_bin aps_bin r =
     r\<lparr>dpes_lower := dpes_lower aps_bin, dpes_upper := dpes_upper aps_bin, dpes := dpes aps_bin,
        dn := nan_add
                (nan_div (nan_mul (dn aps_bin)
                   ((dpes_upper aps_bin - dpes_lower aps_bin) - (dpes_upper smps_bin - dpes_lower smps_bin)))
                   (dpes_upper aps_bin - dpes_lower aps_bin))
                (nan_div (nan_add (nan_mul (dn aps_bin)
                   ((dpes_upper smps_bin - dpes_lower smps_bin) / (dpes_upper aps_bin - dpes_lower aps_bin)))
                   (dn smps_bin)) 2),
        flag := Merged\<rparr>"

definition boundary_row :: "bin \<Rightarrow> bin \<Rightarrow> real \<Rightarrow> real \<Rightarrow> bin \<Rightarrow> bin" where
  "boundary_row smps_bin aps_bin aps_only_width overlap_width r =
     r\<lparr>dpes_lower := dpes_lower aps_bin, dpes_upper := dpes_upper aps_bin, dpes := dpes aps_bin,
        dn := nan_add
                (nan_mul (dn aps_bin) (aps_only_width / (dpes_upper aps_bin - dpes_lower aps_bin)))
                (nan_div
                   (nan_add
                      (nan_mul (dn aps_bin) (overlap_width / (dpes_upper aps_bin - dpes_lower aps_bin)))
                      (nan_mul (dn smps_bin) (overlap_width / (dpes_upper smps_bin - dpes_lower smps_bin))))
                   2),
        flag := Merged\<rparr>"

definition apply_selection :: "(nat \<times> bin) list \<Rightarrow> bin \<Rightarrow> bin list \<Rightarrow> bin list" where
  "apply_selection A f U =
     (case merge_selection A f of
        [(n, a)] \<Rightarrow> if is_left_edge A f then loc_set n (left_edge_row f a) U
                    else loc_set n (embraced_row f a) U
      | [(n1, a1), (n2, a2)] \<Rightarrow>
          loc_set n2 (boundary_row f a2 (dpes_upper a2 - dpes_upper f) (dpes_upper f - dpes_lower a2))
            (loc_set n1 (boundary_row f a1 (dpes_lower f - dpes_lower a1) (dpes_upper a1 - dpes_lower f)) U)
      | _ \<Rightarrow> U)"

subsection \<open>Measures used in the statements\<close>

text \<open>
  The width of a bin, the width two bins have in common, the count of a bin as
  \<^verbatim>\<open>Series.sum()\<close> reads it (NaN counts for nothing), the total count of some bins, and
  bins that follow one another without a hole.
\<close>

definition bin_width :: "bin \<Rightarrow> real" where
  "bin_width b = dpes_upper b - dpes_lower b"

definition shared_width :: "bin \<Rightarrow> bin \<Rightarrow> real" where
  "shared_width a b = min (dpes_upper a) (dpes_upper b) - max (dpes_lower a) (dpes_lower b)"

definition count_of :: "bin \<Rightarrow> real" where
  "count_of b = (case dn b of None \<Rightarrow> 0 | Some v \<Rightarrow> v)"

definition count_sum :: "bin list \<Rightarrow> real" where
  "count_sum bins = sum_list (map count_of bins)"

fun adjacent :: "bin list \<Rightarrow> bool" where
  "adjacent (a # b # rest) = (dpes_upper a = dpes_lower b \<and> adjacent (b # rest))"
| "adjacent _ = True"

text \<open>A row written out, for the examples.\<close>

definition mk_bin :: "provenance \<Rightarrow> real \<Rightarrow> real \<Rightarrow> real \<Rightarrow> real \<Rightarrow> real \<Rightarrow> bin" where
  "mk_bin p center lower upper count density =
     \<lparr>flag = p, dpes = center, dpes_lower = lower, dpes_upper = upper,
      dn = Some count, dndlogd = Some density\<rparr>"

text \<open>The count of a row as line 134 computes it, from its density and its own log-width.\<close>

definition recount :: "bin \<Rightarrow> bin" where
  "recount r = r\<lparr>dn := nan_mul (dndlogd r) (log10 (dpes_upper r) - log10 (dpes_lower r))\<rparr>"

text \<open>The rows that came from an instrument.\<close>

definition original :: "bin \<Rightarrow> bool" where
  "original r = (flag r = Smps \<or> flag r = Aps)"

text \<open>
  Two distributions with a gap between them, one decade wide, and the frame the combiner
  builds from them before it interpolates: one new bin over the gap. The first SMPS bin
  carries a count that is not its density times its log-width.
\<close>

definition gap_example_smps :: "bin list" where
  "gap_example_smps = [mk_bin Smps 1 (1/10) 10 7 3, mk_bin Smps 100 10 1000 8 4]"

definition gap_example_aps :: "bin list" where
  "gap_example_aps =
     [mk_bin Aps 100000 10000 1000000 10 5, mk_bin Aps 10000000 1000000 100000000 12 6]"

definition gap_example_frame :: "bin list" where
  "gap_example_frame =
     [mk_bin Smps 1 (1/10) 10 7 3, mk_bin Smps 100 10 1000 8 4,
      \<lparr>flag = Interpolated, dpes = 5500, dpes_lower = 1000, dpes_upper = 10000,
       dn = None, dndlogd = None\<rparr>,
      mk_bin Aps 100000 10000 1000000 10 5, mk_bin Aps 10000000 1000000 100000000 12 6]"

text \<open>
  Two distributions of five bins each around a gap of one decade, with densities 10 to 50
  and 60 to 100, and the frame the combiner builds from them before it interpolates.
\<close>

definition window_example_smps :: "bin list" where
  "window_example_smps =
     [mk_bin Smps 1 (1/2) 5 10 10, mk_bin Smps 10 5 50 20 20, mk_bin Smps 100 50 500 30 30,
      mk_bin Smps 1000 500 5000 40 40, mk_bin Smps 10000 5000 100000 50 50]"

definition window_example_aps :: "bin list" where
  "window_example_aps =
     [mk_bin Aps 10000000 1000000 50000000 60 60,
      mk_bin Aps 100000000 50000000 500000000 70 70,
      mk_bin Aps 1000000000 500000000 5000000000 80 80,
      mk_bin Aps 10000000000 5000000000 50000000000 90 90,
      mk_bin Aps 100000000000 50000000000 500000000000 100 100]"

definition window_example_frame :: "bin list" where
  "window_example_frame =
     window_example_smps
     @ [\<lparr>flag = Interpolated, dpes = 550000, dpes_lower = 100000, dpes_upper = 1000000,
         dn = None, dndlogd = None\<rparr>]
     @ window_example_aps"

text \<open>
  A distribution as the data model has it: positive boundaries with the centre between
  them, and the bins in ascending order, none reaching beyond the lower boundary of the
  next.
\<close>

definition size_distribution :: "bin list \<Rightarrow> bool" where
  "size_distribution sd =
     ((\<forall>r\<in>set sd. 0 < dpes_lower r \<and> dpes_lower r < dpes r \<and> dpes r < dpes_upper r)
      \<and> sorted_wrt (\<lambda>a b. dpes_upper a \<le> dpes_lower b) sd)"

text \<open>
  Two distributions of the data model whose ranges overlap: every bin is two decades
  wide around its centre and carries a count of twice its density.
\<close>

definition overlap_example_smps :: "bin list" where
  "overlap_example_smps =
     [mk_bin Smps 10 1 100 4 2, mk_bin Smps 1000 100 10000 6 3,
      mk_bin Smps 100000 10000 1000000 8 4]"

definition overlap_example_aps :: "bin list" where
  "overlap_example_aps =
     [mk_bin Aps 10000 1000 100000 10 5, mk_bin Aps 1000000 100000 10000000 12 6]"

text \<open>
  Two distributions with a gap between them as \<^verbatim>\<open>read_raw_sd\<close> builds them for a
  channel resolution of one bin per decade: the boundaries of \<^const>\<open>calc_bin_boundaries\<close>
  around the centres 33, 330, ..., each bin one decade wide, with a count equal to its
  density.
\<close>

definition decade_example_smps :: "bin list" where
  "decade_example_smps =
     [mk_bin Smps 33 6 60 10 10, mk_bin Smps 330 60 600 20 20, mk_bin Smps 3300 600 6000 30 30]"

definition decade_example_aps :: "bin list" where
  "decade_example_aps =
     [mk_bin Aps 330000 60000 600000 40 40, mk_bin Aps 3300000 600000 6000000 50 50,
      mk_bin Aps 33000000 6000000 60000000 60 60]"

subsection \<open>Boundaries around a centre\<close>

lemma ten_powr_gt_one: "0 < r \<Longrightarrow> 1 < (10::real) powr (1 / r)"
  by simp

lemma ten_powr_neg_lt_one: "0 < r \<Longrightarrow> (10::real) powr (- 1 / r) < 1"
proof -
  assume r: "0 < r"
  have "(10::real) powr (- 1 / r) < 10 powr 0"
    by (rule powr_less_mono) (use r in auto)
  then show ?thesis by simp
qed

lemma ten_powr_ratio:
  "((10::real) powr (1 / r) + 1) / (10 powr (- 1 / r) + 1) = 10 powr (1 / r)"
proof -
  let ?p = "(10::real) powr (1 / r)"
  have pos: "0 < ?p" by simp
  have inv: "(10::real) powr (- 1 / r) = 1 / ?p"
    by (simp add: powr_minus_divide)
  have "1 / ?p + 1 = (?p + 1) / ?p"
    using pos by (simp add: field_simps)
  moreover have "?p + 1 \<noteq> 0"
    using pos by linarith
  ultimately have "(?p + 1) / (1 / ?p + 1) = ?p"
    by simp
  then show ?thesis by (simp only: inv)
qed

text \<open>
  C7. For every positive centre diameter and every positive channel resolution,
  \<^verbatim>\<open>calc_bin_boundaries\<close> returns boundaries with lower < centre < upper whose ratio
  upper/lower is \<open>10^(1/resolution)\<close>, the same for every bin (constant log-width).
\<close>

theorem calc_bin_boundaries_symmetric:
  assumes "0 < center" and "0 < resolution"
  shows "fst (calc_bin_boundaries center resolution) < center
       \<and> center < snd (calc_bin_boundaries center resolution)
       \<and> snd (calc_bin_boundaries center resolution) / fst (calc_bin_boundaries center resolution)
           = 10 powr (1 / resolution)"
proof -
  let ?p = "(10::real) powr (1 / resolution)"
  let ?q = "(10::real) powr (- 1 / resolution)"
  have p: "1 < ?p" using assms(2) by (rule ten_powr_gt_one)
  have q: "?q < 1" using assms(2) by (rule ten_powr_neg_lt_one)
  have q0: "0 < ?q" by simp
  have lo: "2 * center / (?p + 1) < center"
  proof -
    have "2 * center < center * (?p + 1)"
      using p assms(1) by (simp add: algebra_simps)
    moreover have "0 < ?p + 1" using p by linarith
    ultimately show ?thesis by (simp only: pos_divide_less_eq)
  qed
  have hi: "center < 2 * center / (?q + 1)"
  proof -
    have "center * (?q + 1) < 2 * center"
      using q assms(1) by (simp add: algebra_simps)
    moreover have "0 < ?q + 1" using q0 by linarith
    ultimately show ?thesis by (simp only: pos_less_divide_eq)
  qed
  have "center \<noteq> 0" using assms(1) by simp
  then have "(2 * center / (?q + 1)) / (2 * center / (?p + 1)) = (?p + 1) / (?q + 1)"
    by simp
  then have ratio: "(2 * center / (?q + 1)) / (2 * center / (?p + 1)) = ?p"
    by (simp only: ten_powr_ratio)
  show ?thesis
    using lo hi ratio by (simp add: calc_bin_boundaries_def Let_def)
qed

theorem calc_bin_boundaries_symmetric_witness:
  "(0::real) < 1 \<and> (0::real) < 2
   \<and> fst (calc_bin_boundaries 1 2) < 1 \<and> 1 < snd (calc_bin_boundaries 1 2)
   \<and> snd (calc_bin_boundaries 1 2) / fst (calc_bin_boundaries 1 2) = 10 powr (1 / 2)"
  using calc_bin_boundaries_symmetric [of 1 2] by simp

subsection \<open>The loop body as a function of the frames read before the loop\<close>

lemma py_min_le:
  "py_min (map f xs) = Inr m \<Longrightarrow> x \<in> set xs \<Longrightarrow> m \<le> f x"
proof -
  have fold_le: "\<And>ys (a::real). fold min ys a \<le> a \<and> (\<forall>y\<in>set ys. fold min ys a \<le> y)"
  proof -
    fix ys and a :: real
    show "fold min ys a \<le> a \<and> (\<forall>y\<in>set ys. fold min ys a \<le> y)"
    proof (induction ys arbitrary: a)
      case Nil
      show ?case by simp
    next
      case (Cons z zs)
      have 1: "fold min zs (min z a) \<le> min z a" using Cons.IH by blast
      have 2: "\<forall>y\<in>set zs. fold min zs (min z a) \<le> y" using Cons.IH by blast
      show ?case using 1 2 by auto
    qed
  qed
  assume "py_min (map f xs) = Inr m" and "x \<in> set xs"
  then show ?thesis
    using fold_le by (cases xs) (auto simp: py_min_def)
qed

lemma py_max_ge:
  "py_max (map f xs) = Inr m \<Longrightarrow> x \<in> set xs \<Longrightarrow> f x \<le> m"
proof -
  have fold_ge: "\<And>ys (a::real). a \<le> fold max ys a \<and> (\<forall>y\<in>set ys. y \<le> fold max ys a)"
  proof -
    fix ys and a :: real
    show "a \<le> fold max ys a \<and> (\<forall>y\<in>set ys. y \<le> fold max ys a)"
    proof (induction ys arbitrary: a)
      case Nil
      show ?case by simp
    next
      case (Cons z zs)
      have 1: "max z a \<le> fold max zs (max z a)" using Cons.IH by blast
      have 2: "\<forall>y\<in>set zs. y \<le> fold max zs (max z a)" using Cons.IH by blast
      show ?case using 1 2 by auto
    qed
  qed
  assume "py_max (map f xs) = Inr m" and "x \<in> set xs"
  then show ?thesis
    using fold_ge by (cases xs) (auto simp: py_max_def)
qed

lemma py_min_nonempty: "xs \<noteq> [] \<Longrightarrow> \<exists>m. py_min xs = Inr m"
  by (cases xs) (auto simp: py_min_def)

lemma py_max_nonempty: "xs \<noteq> [] \<Longrightarrow> \<exists>m. py_max xs = Inr m"
  by (cases xs) (auto simp: py_max_def)

lemma loc_set_twice: "loc_set n g (loc_set n f T) = loc_set n (\<lambda>r. g (f r)) T"
  by (cases "n < length T") (simp_all add: loc_set_def list_update_beyond)

lemma loc_set_nth:
  "loc_set n w T ! i = (if i = n \<and> n < length T then w (T ! n) else T ! i)"
  by (cases "n < length T") (auto simp: loc_set_def nth_list_update list_update_beyond)

lemma length_loc_set: "length (loc_set n w T) = length T"
  by (simp add: loc_set_def)

lemma merge_left_edge_row:
  "merge_left_edge smps_bin name aps_bin T = loc_set name (left_edge_row smps_bin aps_bin) T"
  by (simp add: merge_left_edge_def left_edge_row_def [abs_def] Let_def loc_set_twice)

lemma merge_embraced_row:
  "merge_embraced smps_bin name aps_bin T = loc_set name (embraced_row smps_bin aps_bin) T"
  by (simp add: merge_embraced_def embraced_row_def [abs_def] Let_def loc_set_twice)

lemma merge_boundary_row:
  "merge_boundary smps_bin name aps_bin ao ov T = loc_set name (boundary_row smps_bin aps_bin ao ov) T"
  by (simp add: merge_boundary_def boundary_row_def [abs_def] Let_def loc_set_twice)

lemma row_dndlogd:
  "dndlogd (left_edge_row f a r) = dndlogd r"
  "dndlogd (embraced_row f a r) = dndlogd r"
  "dndlogd (boundary_row f a ao ov r) = dndlogd r"
  by (simp_all add: left_edge_row_def embraced_row_def boundary_row_def)

lemma row_cong:
  assumes "dndlogd r1 = dndlogd r2"
  shows "left_edge_row f a r1 = left_edge_row f a r2"
    and "embraced_row f a r1 = embraced_row f a r2"
    and "boundary_row f a ao ov r1 = boundary_row f a ao ov r2"
proof -
  show "left_edge_row f a r1 = left_edge_row f a r2"
    by (rule bin.equality) (simp_all add: left_edge_row_def assms)
  show "embraced_row f a r1 = embraced_row f a r2"
    by (rule bin.equality) (simp_all add: embraced_row_def assms)
  show "boundary_row f a ao ov r1 = boundary_row f a ao ov r2"
    by (rule bin.equality) (simp_all add: boundary_row_def assms)
qed

lemma merge_selection_shape:
  "merge_selection A f = [] \<or> (\<exists>t. merge_selection A f = [t])
   \<or> (\<exists>t1 t2. merge_selection A f = [t1, t2])"
  by (auto simp: merge_selection_def split: sum.splits list.splits)

lemma merge_bin_by_selection:
  assumes "merge_bin A f T = Inr T'"
  shows "merge_bin A f U = Inr (apply_selection A f U)"
  using assms
  by (auto simp: merge_bin_def merge_selection_def is_left_edge_def apply_selection_def
        merge_left_edge_row merge_embraced_row merge_boundary_row
        merge_boundary_first_def merge_boundary_second_def
        split: sum.splits if_splits list.splits)

lemma apply_selection_untouched:
  "i \<notin> fst ` set (merge_selection A f) \<Longrightarrow> apply_selection A f U ! i = U ! i"
  by (auto simp: apply_selection_def loc_set_nth split: list.splits)

lemma apply_selection_length: "length (apply_selection A f U) = length U"
  by (auto simp: apply_selection_def length_loc_set split: list.splits)

lemma apply_selection_dndlogd:
  "dndlogd (apply_selection A f U ! i) = dndlogd (U ! i)"
  by (auto simp: apply_selection_def loc_set_nth length_loc_set row_dndlogd split: list.splits)


lemma merge_loop_append:
  "merge_loop A (xs @ ys) T =
     (case merge_loop A xs T of Inl e \<Rightarrow> Inl e | Inr T1 \<Rightarrow> merge_loop A ys T1)"
  by (induction xs arbitrary: T) (auto split: sum.splits)

lemma merge_loop_frame:
  "merge_loop A gs T = Inr T' \<Longrightarrow>
     length T' = length T \<and> dndlogd (T' ! i) = dndlogd (T ! i)
     \<and> ((\<forall>g\<in>set gs. i \<notin> fst ` set (merge_selection A g)) \<longrightarrow> T' ! i = T ! i)"
proof (induction gs arbitrary: T)
  case Nil
  then show ?case by simp
next
  case (Cons g gs)
  from Cons.prems obtain T1 where 1: "merge_bin A g T = Inr T1" and 2: "merge_loop A gs T1 = Inr T'"
    by (auto split: sum.splits)
  have T1: "T1 = apply_selection A g T"
    using merge_bin_by_selection [OF 1, of T] 1 by simp
  show ?case
    using Cons.IH [OF 2]
    by (auto simp: T1 apply_selection_length apply_selection_dndlogd apply_selection_untouched)
qed

text \<open>The equations that evaluate the loop body and the combiner on rows written out.\<close>

lemmas merge_eval = merge_bin_def py_max_def py_min_def merge_embraced_def merge_left_edge_def
  merge_boundary_def merge_boundary_first_def merge_boundary_second_def loc_set_def
  nan_add_def nan_mul_def nan_div_def nan_times_def mk_bin_def Let_def

lemmas combine_eval = combine_SMPS_APS_sd_def merge_overlap_branch_def
  smps_overlap_of_def aps_overlap_of_def drop_labels_def recompute_modified_def
  calc_dXdlogd_from_dX_def enumerate_eq_zip

subsection \<open>The frame the combiner starts from, and the two selections\<close>

lemma flagged_lower_column:
  "[dpes_lower b. b \<leftarrow> map (\<lambda>r. r\<lparr>flag := Smps\<rparr>) X @ map (\<lambda>r. r\<lparr>flag := Aps\<rparr>) Y, flag b = Aps]
   = map dpes_lower Y"
proof -
  have 1: "[dpes_lower b. b \<leftarrow> map (\<lambda>r. r\<lparr>flag := Smps\<rparr>) X, flag b = Aps] = []"
    by (induction X) simp_all
  have 2: "[dpes_lower b. b \<leftarrow> map (\<lambda>r. r\<lparr>flag := Aps\<rparr>) Y, flag b = Aps] = map dpes_lower Y"
    by (induction Y) simp_all
  show ?thesis using 1 2 by simp
qed

lemma flagged_upper_column:
  "[dpes_upper b. b \<leftarrow> map (\<lambda>r. r\<lparr>flag := Smps\<rparr>) X @ map (\<lambda>r. r\<lparr>flag := Aps\<rparr>) Y, flag b = Smps]
   = map dpes_upper X"
proof -
  have 1: "[dpes_upper b. b \<leftarrow> map (\<lambda>r. r\<lparr>flag := Smps\<rparr>) X, flag b = Smps] = map dpes_upper X"
    by (induction X) simp_all
  have 2: "[dpes_upper b. b \<leftarrow> map (\<lambda>r. r\<lparr>flag := Aps\<rparr>) Y, flag b = Smps] = []"
    by (induction Y) simp_all
  show ?thesis using 1 2 by simp
qed

lemma aps_overlap_of_member:
  assumes "aps_overlap_of F = Inr A" and "(i, a) \<in> set A"
  shows "i < length F" and "a = F ! i" and "flag a = Aps"
  using assms by (auto simp: aps_overlap_of_def in_set_enumerate_eq split: sum.splits)

lemma smps_overlap_of_member:
  assumes "smps_overlap_of F = Inr S" and "(k, g) \<in> set S"
  shows "k < length F" and "g = F ! k" and "flag g = Smps"
    and "\<exists>m. py_min [dpes_lower b. b \<leftarrow> F, flag b = Aps] = Inr m \<and> m < dpes_upper g"
  using assms by (auto simp: smps_overlap_of_def in_set_enumerate_eq split: sum.splits)

lemma drop_labels_member:
  "i < length T \<Longrightarrow> i \<notin> set labels \<Longrightarrow> T ! i \<in> set (drop_labels labels T)"
proof -
  assume i: "i < length T" and n: "i \<notin> set labels"
  have "(i, T ! i) \<in> set (filter (\<lambda>(i, b). i \<notin> set labels) (enumerate 0 T))"
    using i n by (simp add: in_set_enumerate_eq)
  then have "snd (i, T ! i) \<in> snd ` set (filter (\<lambda>(i, b). i \<notin> set labels) (enumerate 0 T))"
    by (rule imageI)
  then show ?thesis by (simp add: drop_labels_def)
qed

lemma combine_merge_branch_result:
  assumes run: "combine_SMPS_APS_sd sd_aps sd_smps True interpolate_gap = Inr out"
    and u: "py_max (map dpes_upper sd_smps) = Inr u"
    and l: "py_min (map dpes_lower sd_aps) = Inr l"
    and ov: "l < u"
  shows "\<exists>T. merge_overlap_branch (map (\<lambda>r. r\<lparr>flag := Smps\<rparr>) sd_smps @ map (\<lambda>r. r\<lparr>flag := Aps\<rparr>) sd_aps) = Inr T
           \<and> out = recompute_modified T"
proof -
  have u': "py_max (map (dpes_upper \<circ> flag_update (\<lambda>_. Smps)) sd_smps) = Inr u"
    using u by (simp add: comp_def)
  have l': "py_min (map (dpes_lower \<circ> flag_update (\<lambda>_. Aps)) sd_aps) = Inr l"
    using l by (simp add: comp_def)
  from ov have "\<not> u < l" by simp
  with run ov show ?thesis
    by (simp add: combine_SMPS_APS_sd_def Let_def u' l' split: sum.splits)
qed

lemma combine_ranges:
  assumes "combine_SMPS_APS_sd sd_aps sd_smps merge_overlap interpolate_gap = Inr out"
  shows "\<exists>u l. py_max (map dpes_upper sd_smps) = Inr u \<and> py_min (map dpes_lower sd_aps) = Inr l"
proof -
  have a: "map (dpes_upper \<circ> flag_update (\<lambda>_. Smps)) sd_smps = map dpes_upper sd_smps"
    by (simp add: comp_def)
  have b: "map (dpes_lower \<circ> flag_update (\<lambda>_. Aps)) sd_aps = map dpes_lower sd_aps"
    by (simp add: comp_def)
  from assms show ?thesis
    by (cases "py_max (map dpes_upper sd_smps)"; cases "py_min (map dpes_lower sd_aps)")
       (simp_all add: combine_SMPS_APS_sd_def Let_def a b)
qed

subsection \<open>The embraced bin (subcase 1)\<close>

text \<open>
  C3. Let the combiner merge the overlap of two distributions, and let an SMPS bin of
  \<open>smps_overlap\<close> lie strictly inside one APS bin of \<open>aps_overlap\<close> and meet no
  other. When the loop has come through the pass for this SMPS bin, whatever the passes
  before it wrote, the row of the APS bin is the APS bin as it was before the loop, with
  its boundaries and its centre, flagged as merged and with the count
  \<open>t * (w\<^sub>t - w\<^sub>f) / w\<^sub>t + (t * (w\<^sub>f / w\<^sub>t) + f) / 2\<close>,
  where \<open>t\<close>, \<open>f\<close> are the counts and \<open>w\<^sub>t\<close>, \<open>w\<^sub>f\<close> the widths of the APS and the
  SMPS bin. When no later SMPS bin is merged into the same APS bin, this row, with the
  density computed again from its count (lines 235--238), is a row of the result. For the
  APS bin [50, 150] with count 100 and the SMPS bin [80, 120] with count 40 the count
  is 100.
\<close>

theorem combine_single_containment:
  assumes run: "combine_SMPS_APS_sd sd_aps sd_smps True interpolate_gap = Inr out"
    and frame: "sd_combined = map (\<lambda>r. r\<lparr>flag := Smps\<rparr>) sd_smps @ map (\<lambda>r. r\<lparr>flag := Aps\<rparr>) sd_aps"
    and aps: "aps_overlap_of sd_combined = Inr aps_overlap"
    and smps: "smps_overlap_of sd_combined = Inr smps_overlap"
    and pass: "map snd smps_overlap = pre @ smps_bin # post"
    and sel: "filter (\<lambda>a. dpes_lower smps_bin < dpes_upper (snd a)
                          \<and> dpes_lower (snd a) < dpes_upper smps_bin) aps_overlap
                = [(name, aps_bin)]"
    and inside: "dpes_lower aps_bin < dpes_lower smps_bin" "dpes_upper smps_bin < dpes_upper aps_bin"
    and counts: "dn aps_bin = Some t" "dn smps_bin = Some f"
    and merged: "merged_count = t * (bin_width aps_bin - bin_width smps_bin) / bin_width aps_bin
                                + (t * (bin_width smps_bin / bin_width aps_bin) + f) / 2"
  shows "(\<exists>T. merge_loop aps_overlap (pre @ [smps_bin]) sd_combined = Inr T
              \<and> T ! name = aps_bin\<lparr>dn := Some merged_count, flag := Merged\<rparr>)
         \<and> ((\<forall>g\<in>set post. name \<notin> fst ` set (merge_selection aps_overlap g)) \<longrightarrow>
              aps_bin\<lparr>dn := Some merged_count, flag := Merged,
                      dndlogd := calc_dXdlogd_from_dX (Some merged_count)
                                   (dpes_lower aps_bin) (dpes_upper aps_bin)\<rparr> \<in> set out)"
proof -
  let ?row = "aps_bin\<lparr>dn := Some merged_count, flag := Merged\<rparr>"
  have "(name, aps_bin) \<in> set (filter (\<lambda>a. dpes_lower smps_bin < dpes_upper (snd a)
                          \<and> dpes_lower (snd a) < dpes_upper smps_bin) aps_overlap)"
    by (simp only: sel list.set_intros)
  then have mem: "(name, aps_bin) \<in> set aps_overlap" by simp
  note target = aps_overlap_of_member [OF aps mem]
  have "smps_bin \<in> set (map snd smps_overlap)" by (simp add: pass)
  then obtain k where k: "(k, smps_bin) \<in> set smps_overlap" by auto
  note fine = smps_overlap_of_member [OF smps k]
  \<comment> \<open>the two ranges overlap, so the branch of line 137 runs\<close>
  from combine_ranges [OF run] obtain u l
    where u: "py_max (map dpes_upper sd_smps) = Inr u" and l: "py_min (map dpes_lower sd_aps) = Inr l"
    by blast
  from fine(4) have "l < dpes_upper smps_bin"
    unfolding frame flagged_lower_column l by simp
  moreover have "dpes_upper smps_bin \<le> u"
  proof -
    have "smps_bin \<in> set sd_combined" using fine(1,2) by simp
    then have "smps_bin \<in> set (map (\<lambda>r. r\<lparr>flag := Smps\<rparr>) sd_smps)"
      using fine(3) by (auto simp: frame)
    then obtain r where r: "r \<in> set sd_smps" and "smps_bin = r\<lparr>flag := Smps\<rparr>" by auto
    then show ?thesis using py_max_ge [OF u r] by simp
  qed
  ultimately have ov: "l < u" by simp
  from combine_merge_branch_result [OF run u l ov] obtain M
    where M: "merge_overlap_branch sd_combined = Inr M" and out: "out = recompute_modified M"
    by (auto simp: frame)
  from M obtain T' where loop: "merge_loop aps_overlap (map snd smps_overlap) sd_combined = Inr T'"
    and M': "M = sort_key dpes (drop_labels (map fst smps_overlap) T')"
    by (auto simp: merge_overlap_branch_def aps smps split: sum.splits)
  \<comment> \<open>the loop up to the pass, the pass, and the rest\<close>
  from loop obtain T0 where before: "merge_loop aps_overlap pre sd_combined = Inr T0"
    and rest: "merge_loop aps_overlap (smps_bin # post) T0 = Inr T'"
    by (auto simp: pass merge_loop_append split: sum.splits)
  from rest obtain T1 where step: "merge_bin aps_overlap smps_bin T0 = Inr T1"
    and after: "merge_loop aps_overlap post T1 = Inr T'"
    by (auto split: sum.splits)
  have len0: "length T0 = length sd_combined"
    and d0: "dndlogd (T0 ! name) = dndlogd (sd_combined ! name)"
    using merge_loop_frame [OF before, of name] by simp_all
  \<comment> \<open>the pass takes the block of lines 181--190\<close>
  have ne: "map (\<lambda>a. dpes_lower (snd a)) aps_overlap \<noteq> []"
    and ne': "map (\<lambda>a. dpes_upper (snd a)) aps_overlap \<noteq> []" using mem by auto
  obtain m where m: "py_min (map (\<lambda>a. dpes_lower (snd a)) aps_overlap) = Inr m"
    using py_min_nonempty [OF ne] by blast
  obtain mx where mx: "py_max (map (\<lambda>a. dpes_upper (snd a)) aps_overlap) = Inr mx"
    using py_max_nonempty [OF ne'] by blast
  have "m \<le> dpes_lower aps_bin" using py_min_le [OF m mem] by simp
  then have lo: "m < dpes_lower smps_bin" using inside(1) by linarith
  have "dpes_upper aps_bin \<le> mx" using py_max_ge [OF mx mem] by simp
  then have hi: "dpes_upper smps_bin < mx" using inside(2) by linarith
  have "merge_bin aps_overlap smps_bin T0 = Inr (merge_embraced smps_bin name aps_bin T0)"
    using lo hi by (simp add: merge_bin_def m mx sel)
  then have T1: "T1 = loc_set name (embraced_row smps_bin aps_bin) T0"
    using step by (simp add: merge_embraced_row)
  have "dndlogd (T0 ! name) = dndlogd aps_bin" using d0 target(2) by simp
  then have "embraced_row smps_bin aps_bin (T0 ! name) = embraced_row smps_bin aps_bin aps_bin"
    by (rule row_cong(2))
  also have "\<dots> = ?row"
    by (simp add: embraced_row_def counts merged nan_add_def nan_mul_def nan_div_def bin_width_def)
  finally have row1: "T1 ! name = ?row"
    using target(1) len0 by (simp add: T1 loc_set_nth)
  have "merge_loop aps_overlap (pre @ [smps_bin]) sd_combined = Inr T1"
    by (simp add: merge_loop_append before step)
  then have first: "\<exists>T. merge_loop aps_overlap (pre @ [smps_bin]) sd_combined = Inr T \<and> T ! name = ?row"
    using row1 by blast
  \<comment> \<open>no later pass writes to the row, the row is not dropped, and its density is computed again\<close>
  have second: "?row\<lparr>dndlogd := calc_dXdlogd_from_dX (Some merged_count)
                                   (dpes_lower aps_bin) (dpes_upper aps_bin)\<rparr> \<in> set out"
    if later: "\<forall>g\<in>set post. name \<notin> fst ` set (merge_selection aps_overlap g)"
  proof -
    have len': "length T' = length T1" and "T' ! name = T1 ! name"
      using merge_loop_frame [OF after, of name] later by simp_all
    then have row': "T' ! name = ?row" using row1 by simp
    have len1: "length T1 = length sd_combined" by (simp add: T1 length_loc_set len0)
    have "name \<notin> set (map fst smps_overlap)"
    proof
      assume "name \<in> set (map fst smps_overlap)"
      then obtain g where "(name, g) \<in> set smps_overlap" by auto
      from smps_overlap_of_member(2,3) [OF smps this] target(2,3) show False by simp
    qed
    then have "T' ! name \<in> set (drop_labels (map fst smps_overlap) T')"
      using target(1) len' len1 by (intro drop_labels_member) simp_all
    then have "?row \<in> set M" by (simp add: M' row')
    then have "(\<lambda>r. if flag r \<noteq> Smps \<and> flag r \<noteq> Aps
               then r\<lparr>dndlogd := calc_dXdlogd_from_dX (dn r) (dpes_lower r) (dpes_upper r)\<rparr>
               else r) ?row \<in> set out"
      unfolding out recompute_modified_def by (simp only: set_map) (rule imageI)
    then show ?thesis by simp
  qed
  from first second show ?thesis by simp
qed

theorem combine_single_containment_witness:
  "combine_SMPS_APS_sd [mk_bin Aps 100 50 150 100 (100 / (log10 150 - log10 50))]
     [mk_bin Smps 100 80 120 40 (40 / (log10 120 - log10 80))] True False
   = Inr [mk_bin Merged 100 50 150 100 (100 / (log10 150 - log10 50))]
   \<and> (\<exists>T. merge_loop [(1, mk_bin Aps 100 50 150 100 (100 / (log10 150 - log10 50)))]
              ([] @ [mk_bin Smps 100 80 120 40 (40 / (log10 120 - log10 80))])
              [mk_bin Smps 100 80 120 40 (40 / (log10 120 - log10 80)),
               mk_bin Aps 100 50 150 100 (100 / (log10 150 - log10 50))] = Inr T
            \<and> dn (T ! 1) = Some 100 \<and> flag (T ! 1) = Merged
            \<and> dpes_lower (T ! 1) = 50 \<and> dpes_upper (T ! 1) = 150)
   \<and> combine_SMPS_APS_sd [mk_bin Aps 6 1 11 100 (100 / (log10 11 - log10 1))]
       [mk_bin Smps 4 3 5 10 (10 / (log10 5 - log10 3)),
        mk_bin Smps 6 5 7 30 (30 / (log10 7 - log10 5))] True False
     = Inr [mk_bin Merged 6 1 11 105 (105 / (log10 11 - log10 1))]
   \<and> (\<exists>T. merge_loop [(2, mk_bin Aps 6 1 11 100 (100 / (log10 11 - log10 1)))]
              ([mk_bin Smps 4 3 5 10 (10 / (log10 5 - log10 3))]
               @ [mk_bin Smps 6 5 7 30 (30 / (log10 7 - log10 5))])
              [mk_bin Smps 4 3 5 10 (10 / (log10 5 - log10 3)),
               mk_bin Smps 6 5 7 30 (30 / (log10 7 - log10 5)),
               mk_bin Aps 6 1 11 100 (100 / (log10 11 - log10 1))] = Inr T
            \<and> dn (T ! 2) = Some 105 \<and> flag (T ! 2) = Merged
            \<and> dpes_lower (T ! 2) = 1 \<and> dpes_upper (T ! 2) = 11)"
proof -
  let ?t = "mk_bin Aps 100 50 150 100 (100 / (log10 150 - log10 50))"
  let ?f = "mk_bin Smps 100 80 120 40 (40 / (log10 120 - log10 80))"
  let ?out = "[mk_bin Merged 100 50 150 100 (100 / (log10 150 - log10 50))]"
  have run: "combine_SMPS_APS_sd [?t] [?f] True False = Inr ?out"
    by (simp add: combine_eval merge_eval)
  have frame: "[?f, ?t] = map (\<lambda>r. r\<lparr>flag := Smps\<rparr>) [?f] @ map (\<lambda>r. r\<lparr>flag := Aps\<rparr>) [?t]"
    by (simp add: mk_bin_def)
  have aps: "aps_overlap_of [?f, ?t] = Inr [(1, ?t)]"
    by (simp add: aps_overlap_of_def py_max_def mk_bin_def enumerate_eq_zip)
  have smps: "smps_overlap_of [?f, ?t] = Inr [(0, ?f)]"
    by (simp add: smps_overlap_of_def py_min_def mk_bin_def enumerate_eq_zip)
  have pass: "map snd [(0::nat, ?f)] = [] @ ?f # []" by simp
  have sel: "filter (\<lambda>a. dpes_lower ?f < dpes_upper (snd a) \<and> dpes_lower (snd a) < dpes_upper ?f)
               [(1::nat, ?t)] = [(1, ?t)]"
    by (simp add: mk_bin_def)
  have inside: "dpes_lower ?t < dpes_lower ?f" "dpes_upper ?f < dpes_upper ?t"
    by (simp_all add: mk_bin_def)
  have counts: "dn ?t = Some 100" "dn ?f = Some 40" by (simp_all add: mk_bin_def)
  have merged: "(100::real) = 100 * (bin_width ?t - bin_width ?f) / bin_width ?t
                                + (100 * (bin_width ?f / bin_width ?t) + 40) / 2"
    by (simp add: bin_width_def mk_bin_def)
  let ?t2 = "mk_bin Aps 6 1 11 100 (100 / (log10 11 - log10 1))"
  let ?g1 = "mk_bin Smps 4 3 5 10 (10 / (log10 5 - log10 3))"
  let ?g2 = "mk_bin Smps 6 5 7 30 (30 / (log10 7 - log10 5))"
  let ?out2 = "[mk_bin Merged 6 1 11 105 (105 / (log10 11 - log10 1))]"
  have run2: "combine_SMPS_APS_sd [?t2] [?g1, ?g2] True False = Inr ?out2"
    by (simp add: combine_eval merge_eval)
  have frame2: "[?g1, ?g2, ?t2]
                  = map (\<lambda>r. r\<lparr>flag := Smps\<rparr>) [?g1, ?g2] @ map (\<lambda>r. r\<lparr>flag := Aps\<rparr>) [?t2]"
    by (simp add: mk_bin_def)
  have aps2: "aps_overlap_of [?g1, ?g2, ?t2] = Inr [(2, ?t2)]"
    by (simp add: aps_overlap_of_def py_max_def mk_bin_def enumerate_eq_zip)
  have smps2: "smps_overlap_of [?g1, ?g2, ?t2] = Inr [(0, ?g1), (1, ?g2)]"
    by (simp add: smps_overlap_of_def py_min_def mk_bin_def enumerate_eq_zip)
  have pass2: "map snd [(0::nat, ?g1), (1, ?g2)] = [?g1] @ ?g2 # []" by simp
  have sel2: "filter (\<lambda>a. dpes_lower ?g2 < dpes_upper (snd a) \<and> dpes_lower (snd a) < dpes_upper ?g2)
               [(2::nat, ?t2)] = [(2, ?t2)]"
    by (simp add: mk_bin_def)
  have inside2: "dpes_lower ?t2 < dpes_lower ?g2" "dpes_upper ?g2 < dpes_upper ?t2"
    by (simp_all add: mk_bin_def)
  have counts2: "dn ?t2 = Some 100" "dn ?g2 = Some 30" by (simp_all add: mk_bin_def)
  have merged2: "(105::real) = 100 * (bin_width ?t2 - bin_width ?g2) / bin_width ?t2
                                + (100 * (bin_width ?g2 / bin_width ?t2) + 30) / 2"
    by (simp add: bin_width_def mk_bin_def)
  show ?thesis
    using combine_single_containment [OF run frame aps smps pass sel inside counts merged]
          combine_single_containment [OF run2 frame2 aps2 smps2 pass2 sel2 inside2 counts2 merged2]
          run run2
    by (auto simp: mk_bin_def)
qed

text \<open>
  In the second frame the first SMPS bin, [3, 5] with count 10, lies inside the same APS
  bin: after its pass the count of the APS bin is 95, and the pass of the second SMPS bin
  replaces it with 105, the count of the result.
\<close>

lemma merge_loop_first_fine_bin_pass:
  "merge_loop [(2, mk_bin Aps 6 1 11 100 (100 / (log10 11 - log10 1)))]
     [mk_bin Smps 4 3 5 10 (10 / (log10 5 - log10 3))]
     [mk_bin Smps 4 3 5 10 (10 / (log10 5 - log10 3)),
      mk_bin Smps 6 5 7 30 (30 / (log10 7 - log10 5)),
      mk_bin Aps 6 1 11 100 (100 / (log10 11 - log10 1))]
   = Inr [mk_bin Smps 4 3 5 10 (10 / (log10 5 - log10 3)),
          mk_bin Smps 6 5 7 30 (30 / (log10 7 - log10 5)),
          mk_bin Merged 6 1 11 95 (100 / (log10 11 - log10 1))]"
  by (simp add: merge_eval)

subsection \<open>Several SMPS bins into one APS bin\<close>



subsection \<open>What a pass selects, and the arithmetic of the three blocks\<close>

lemma singleton_case_subset: "set (case xs of [t] \<Rightarrow> [t] | _ \<Rightarrow> []) \<subseteq> set xs"
proof (cases xs)
  case Nil
  then show ?thesis by simp
next
  case (Cons a r)
  then show ?thesis by (cases r) simp_all
qed

lemma pair_case_subset: "set (case xs of [t] \<Rightarrow> [t] | [t1, t2] \<Rightarrow> [t1, t2] | _ \<Rightarrow> []) \<subseteq> set xs"
proof (cases xs)
  case Nil
  then show ?thesis by simp
next
  case (Cons a r)
  note xs = this
  show ?thesis
  proof (cases r)
    case Nil
    with xs show ?thesis by simp
  next
    case (Cons b r')
    with xs show ?thesis by (cases r') simp_all
  qed
qed

lemma merge_selection_member:
  assumes "t \<in> set (merge_selection A f)"
  shows "t \<in> set A \<and> dpes_lower (snd t) < dpes_upper f
         \<and> (if is_left_edge A f then dpes_lower f < dpes_lower (snd t)
             else dpes_lower f < dpes_upper (snd t))"
proof -
  let ?P = "\<lambda>a. dpes_lower (snd a) < dpes_upper f"
  let ?Q = "\<lambda>a. dpes_lower f < dpes_upper (snd a) \<and> dpes_lower (snd a) < dpes_upper f"
  obtain m where m: "py_min (map (\<lambda>a. dpes_lower (snd a)) A) = Inr m"
  proof (cases "py_min (map (\<lambda>a. dpes_lower (snd a)) A)")
    case (Inl e)
    with assms show ?thesis unfolding merge_selection_def by simp
  next
    case (Inr m)
    then show ?thesis by (rule that)
  qed
  show ?thesis
  proof (cases "dpes_lower f < m")
    case True
    then have le: "is_left_edge A f" by (simp add: is_left_edge_def m)
    have "merge_selection A f = (case filter ?P A of [t] \<Rightarrow> [t] | _ \<Rightarrow> [])"
      unfolding merge_selection_def m using True by simp
    with assms have "t \<in> set (filter ?P A)"
      using singleton_case_subset by fastforce
    then have tA: "t \<in> set A" and P: "?P t" by simp_all
    have "m \<le> dpes_lower (snd t)" using py_min_le [OF m tA] by simp
    with True tA P le show ?thesis by simp
  next
    case False
    then have le: "\<not> is_left_edge A f" by (simp add: is_left_edge_def m)
    obtain M where M: "py_max (map (\<lambda>a. dpes_upper (snd a)) A) = Inr M"
    proof (cases "py_max (map (\<lambda>a. dpes_upper (snd a)) A)")
      case (Inl e)
      with assms False show ?thesis unfolding merge_selection_def m by simp
    next
      case (Inr M)
      then show ?thesis by (rule that)
    qed
    have cond: "m < dpes_lower f \<and> dpes_upper f < M"
    proof (rule ccontr)
      assume "\<not> ?thesis"
      then have "\<not> (m < dpes_lower f \<and> dpes_upper f < M)" .
      then have "merge_selection A f = []"
        unfolding merge_selection_def m M using False by (simp only: sum.case if_False)
      with assms show False by simp
    qed
    have "merge_selection A f
            = (case filter ?Q A of [t] \<Rightarrow> [t] | [t1, t2] \<Rightarrow> [t1, t2] | _ \<Rightarrow> [])"
      unfolding merge_selection_def m M using False cond by simp
    with assms have "t \<in> set (filter ?Q A)"
      using pair_case_subset by fastforce
    with le show ?thesis by simp
  qed
qed

lemma merge_selection_pair_not_left:
  assumes "merge_selection A f = [t1, t2]"
  shows "\<not> is_left_edge A f"
proof
  assume "is_left_edge A f"
  then obtain m where m: "py_min (map (\<lambda>a. dpes_lower (snd a)) A) = Inr m"
    and lt: "dpes_lower f < m"
    by (auto simp: is_left_edge_def split: sum.splits)
  have "merge_selection A f
          = (case filter (\<lambda>a. dpes_lower (snd a) < dpes_upper f) A of [t] \<Rightarrow> [t] | _ \<Rightarrow> [])"
    unfolding merge_selection_def m using lt by simp
  with assms show False
    by (simp split: list.splits)
qed

lemma left_edge_balance:
  fixes fc tc :: real
  assumes "f_lo < f_hi" "t_lo < t_hi"
  shows "fc * ((t_lo - f_lo) / (f_hi - f_lo)) + tc * ((t_hi - f_hi) / (t_hi - t_lo))
           + (1 / 2 * fc * (f_hi - t_lo) / (f_hi - f_lo) + 1 / 2 * tc * (f_hi - t_lo) / (t_hi - t_lo))
         = tc + fc - (tc * (f_hi - t_lo) / (t_hi - t_lo) + fc * (f_hi - t_lo) / (f_hi - f_lo)) / 2"
proof -
  have a: "f_hi - f_lo \<noteq> 0" and b: "t_hi - t_lo \<noteq> 0" using assms by simp_all
  define X where "X = fc * (f_hi - t_lo) / (f_hi - f_lo)"
  define Y where "Y = tc * (f_hi - t_lo) / (t_hi - t_lo)"
  have 1: "fc * ((t_lo - f_lo) / (f_hi - f_lo)) = fc - X"
    using a by (simp add: X_def field_simps)
  have 2: "tc * ((t_hi - f_hi) / (t_hi - t_lo)) = tc - Y"
    using b by (simp add: Y_def field_simps)
  have 3: "1 / 2 * fc * (f_hi - t_lo) / (f_hi - f_lo) = X / 2"
    by (simp add: X_def)
  have 4: "1 / 2 * tc * (f_hi - t_lo) / (t_hi - t_lo) = Y / 2"
    by (simp add: Y_def)
  show ?thesis unfolding 1 2 3 4 X_def [symmetric] Y_def [symmetric] by (simp add: add_divide_distrib)
qed

lemma embraced_balance:
  fixes fc tc :: real
  assumes "t_lo < t_hi" "f_lo < f_hi"
  shows "tc * ((t_hi - t_lo) - (f_hi - f_lo)) / (t_hi - t_lo) + (tc * ((f_hi - f_lo) / (t_hi - t_lo)) + fc) / 2
         = tc + fc - (tc * (f_hi - f_lo) / (t_hi - t_lo) + fc * (f_hi - f_lo) / (f_hi - f_lo)) / 2"
proof -
  have b: "t_hi - t_lo \<noteq> 0" and a: "f_hi - f_lo \<noteq> 0" using assms by simp_all
  define Y where "Y = tc * (f_hi - f_lo) / (t_hi - t_lo)"
  have 1: "tc * ((t_hi - t_lo) - (f_hi - f_lo)) / (t_hi - t_lo) = tc - Y"
    using b by (simp add: Y_def field_simps)
  have 2: "fc * (f_hi - f_lo) / (f_hi - f_lo) = fc" using a by simp
  have 3: "tc * ((f_hi - f_lo) / (t_hi - t_lo)) = Y" by (simp add: Y_def)
  show ?thesis unfolding 1 2 3 Y_def [symmetric] by (simp add: add_divide_distrib)
qed

lemma boundary_balance:
  fixes fc tc :: real
  assumes "t_lo < t_hi"
  shows "tc * ((t_hi - t_lo - ov) / (t_hi - t_lo)) + (tc * (ov / (t_hi - t_lo)) + fc * (ov / w)) / 2
         = tc + fc * ov / w - (tc * ov / (t_hi - t_lo) + fc * ov / w) / 2"
proof -
  have b: "t_hi - t_lo \<noteq> 0" using assms by simp
  define X where "X = fc * ov / w"
  define Y where "Y = tc * ov / (t_hi - t_lo)"
  have 1: "tc * ((t_hi - t_lo - ov) / (t_hi - t_lo)) = tc - Y"
    using b by (simp add: Y_def field_simps)
  have 2: "tc * (ov / (t_hi - t_lo)) = Y" "fc * (ov / w) = X" by (simp_all add: X_def Y_def)
  show ?thesis unfolding 1 2 X_def [symmetric] Y_def [symmetric] by (simp add: add_divide_distrib)
qed

subsection \<open>The count a pass leaves in the bins it merges into\<close>

lemma left_edge_row_count:
  assumes "dn f = Some fc" "dn a = Some tc"
    and "dpes_lower f < dpes_upper f" "dpes_lower a < dpes_upper a"
  shows "count_of (left_edge_row f a r)
         = tc + fc - (tc * (dpes_upper f - dpes_lower a) / (dpes_upper a - dpes_lower a)
                      + fc * (dpes_upper f - dpes_lower a) / (dpes_upper f - dpes_lower f)) / 2"
  using left_edge_balance [OF assms(3,4), of fc tc]
  by (simp add: count_of_def left_edge_row_def assms(1,2) nan_add_def nan_mul_def nan_div_def
        nan_times_def)

lemma embraced_row_count:
  assumes "dn f = Some fc" "dn a = Some tc"
    and "dpes_lower f < dpes_upper f" "dpes_lower a < dpes_upper a"
  shows "count_of (embraced_row f a r)
         = tc + fc - (tc * (dpes_upper f - dpes_lower f) / (dpes_upper a - dpes_lower a)
                      + fc * (dpes_upper f - dpes_lower f) / (dpes_upper f - dpes_lower f)) / 2"
  using embraced_balance [OF assms(4,3), of tc fc]
  by (simp add: count_of_def embraced_row_def assms(1,2) nan_add_def nan_mul_def nan_div_def)

lemma boundary_row_count:
  assumes "dn f = Some fc" "dn a = Some tc"
    and "dpes_lower a < dpes_upper a" and "ao = dpes_upper a - dpes_lower a - ov"
  shows "count_of (boundary_row f a ao ov r)
         = tc + fc * ov / (dpes_upper f - dpes_lower f)
           - (tc * ov / (dpes_upper a - dpes_lower a) + fc * ov / (dpes_upper f - dpes_lower f)) / 2"
  using boundary_balance [OF assms(3), of tc ov fc "dpes_upper f - dpes_lower f"]
  by (simp add: count_of_def boundary_row_def assms(1,2,4) nan_add_def nan_mul_def nan_div_def)

text \<open>
  C1, as the code has it. The counts are not added: on the width the SMPS bin shares with
  an APS bin the two instruments are averaged. For one pass of the loop that merges the
  SMPS bin into one or two APS bins which follow one another without a hole, with the SMPS
  bin reaching no further right than the last of them and (unless it is the left-edge bin)
  no further left than the first, the counts written to these APS bins sum to their
  counts in \<open>aps_overlap\<close> plus the count of the SMPS bin, less half of what the two
  instruments attribute to the shared widths.
\<close>

theorem merge_bin_count_balance:
  assumes step: "merge_bin aps_overlap smps_bin sd_combined = Inr sd_combined'"
    and sel: "merge_selection aps_overlap smps_bin = ts" "ts \<noteq> []"
    and labels: "distinct (map fst ts)" "\<forall>t\<in>set ts. fst t < length sd_combined"
    and counts: "dn smps_bin = Some fc" "\<forall>t\<in>set ts. dn (snd t) \<noteq> None"
    and widths: "dpes_lower smps_bin < dpes_upper smps_bin"
                "\<forall>t\<in>set ts. dpes_lower (snd t) < dpes_upper (snd t)"
    and geometry: "adjacent (map snd ts)"
                  "dpes_upper smps_bin \<le> dpes_upper (snd (last ts))"
                  "is_left_edge aps_overlap smps_bin \<or> dpes_lower (snd (hd ts)) \<le> dpes_lower smps_bin"
  shows "count_sum (map (\<lambda>t. sd_combined' ! fst t) ts)
         = count_sum (map snd ts) + fc
           - (\<Sum>t\<leftarrow>ts. count_of (snd t) * shared_width smps_bin (snd t) / bin_width (snd t)
                       + fc * shared_width smps_bin (snd t) / bin_width smps_bin) / 2"
proof -
  let ?f = smps_bin
  have T': "sd_combined' = apply_selection aps_overlap ?f sd_combined"
    using merge_bin_by_selection [OF step, of sd_combined] step by simp
  consider n a where "ts = [(n, a)]" "is_left_edge aps_overlap ?f"
    | n a where "ts = [(n, a)]" "\<not> is_left_edge aps_overlap ?f"
    | n1 a1 n2 a2 where "ts = [(n1, a1), (n2, a2)]"
    using merge_selection_shape [of aps_overlap ?f] sel by fastforce
  then show ?thesis
  proof cases
    case 1
    from counts(2) 1 obtain tc where tc: "dn a = Some tc" by auto
    have n: "n < length sd_combined" using labels(2) 1 by simp
    have wa: "dpes_lower a < dpes_upper a" using widths(2) 1 by simp
    have "(n, a) \<in> set (merge_selection aps_overlap ?f)" using sel 1 by simp
    from merge_selection_member [OF this] 1(2)
    have lo: "dpes_lower ?f < dpes_lower a" by simp
    have hi: "dpes_upper ?f \<le> dpes_upper a" using geometry(2) 1 by simp
    have sw: "shared_width ?f a = dpes_upper ?f - dpes_lower a"
      using lo hi by (simp add: shared_width_def)
    have row: "sd_combined' ! n = left_edge_row ?f a (sd_combined ! n)"
      using n 1 sel by (simp add: T' apply_selection_def loc_set_nth)
    show ?thesis
      using left_edge_row_count [OF counts(1) tc widths(1) wa, of "sd_combined ! n"]
      by (simp add: 1 count_sum_def row sw bin_width_def count_of_def tc)
  next
    case 2
    from counts(2) 2 obtain tc where tc: "dn a = Some tc" by auto
    have n: "n < length sd_combined" using labels(2) 2 by simp
    have wa: "dpes_lower a < dpes_upper a" using widths(2) 2 by simp
    have lo: "dpes_lower a \<le> dpes_lower ?f" using geometry(3) 2 by simp
    have hi: "dpes_upper ?f \<le> dpes_upper a" using geometry(2) 2 by simp
    have sw: "shared_width ?f a = dpes_upper ?f - dpes_lower ?f"
      using lo hi by (simp add: shared_width_def)
    have row: "sd_combined' ! n = embraced_row ?f a (sd_combined ! n)"
      using n 2 sel by (simp add: T' apply_selection_def loc_set_nth)
    show ?thesis
      using embraced_row_count [OF counts(1) tc widths(1) wa, of "sd_combined ! n"]
      by (simp add: 2 count_sum_def row sw bin_width_def count_of_def tc)
  next
    case 3
    have nl: "\<not> is_left_edge aps_overlap ?f"
      using merge_selection_pair_not_left sel 3 by blast
    from counts(2) 3 obtain tc1 tc2 where tc: "dn a1 = Some tc1" "dn a2 = Some tc2" by auto
    have n: "n1 < length sd_combined" "n2 < length sd_combined" "n1 \<noteq> n2"
      using labels 3 by simp_all
    have wa: "dpes_lower a1 < dpes_upper a1" "dpes_lower a2 < dpes_upper a2"
      using widths(2) 3 by simp_all
    have adj: "dpes_upper a1 = dpes_lower a2" using geometry(1) 3 by simp
    have lo: "dpes_lower a1 \<le> dpes_lower ?f" using geometry(3) 3 nl by simp
    have hi: "dpes_upper ?f \<le> dpes_upper a2" using geometry(2) 3 by simp
    have "(n1, a1) \<in> set (merge_selection aps_overlap ?f)" using sel 3 by simp
    from merge_selection_member [OF this] nl
    have m1: "dpes_lower ?f < dpes_upper a1" by simp
    have "(n2, a2) \<in> set (merge_selection aps_overlap ?f)" using sel 3 by simp
    from merge_selection_member [OF this]
    have m2: "dpes_lower a2 < dpes_upper ?f" by simp
    have sw1: "shared_width ?f a1 = dpes_upper a1 - dpes_lower ?f"
      using lo m2 adj by (simp add: shared_width_def)
    have sw2: "shared_width ?f a2 = dpes_upper ?f - dpes_lower a2"
      using hi m1 adj by (simp add: shared_width_def)
    let ?w1 = "boundary_row ?f a1 (dpes_lower ?f - dpes_lower a1) (dpes_upper a1 - dpes_lower ?f)"
    let ?w2 = "boundary_row ?f a2 (dpes_upper a2 - dpes_upper ?f) (dpes_upper ?f - dpes_lower a2)"
    have row1: "sd_combined' ! n1 = ?w1 (sd_combined ! n1)"
      using n 3 sel by (simp add: T' apply_selection_def loc_set_nth length_loc_set)
    have row2: "sd_combined' ! n2 = ?w2 (sd_combined ! n2)"
      using n 3 sel by (simp add: T' apply_selection_def loc_set_nth length_loc_set)
    define F1 where "F1 = fc * (dpes_upper a1 - dpes_lower ?f) / (dpes_upper ?f - dpes_lower ?f)"
    define F2 where "F2 = fc * (dpes_upper ?f - dpes_lower a2) / (dpes_upper ?f - dpes_lower ?f)"
    define P1 where "P1 = tc1 * (dpes_upper a1 - dpes_lower ?f) / (dpes_upper a1 - dpes_lower a1)"
    define P2 where "P2 = tc2 * (dpes_upper ?f - dpes_lower a2) / (dpes_upper a2 - dpes_lower a2)"
    have c1: "count_of (?w1 (sd_combined ! n1)) = tc1 + F1 - (P1 + F1) / 2"
      unfolding F1_def P1_def by (rule boundary_row_count [OF counts(1) tc(1) wa(1)]) simp
    have c2: "count_of (?w2 (sd_combined ! n2)) = tc2 + F2 - (P2 + F2) / 2"
      unfolding F2_def P2_def by (rule boundary_row_count [OF counts(1) tc(2) wa(2)]) simp
    have whole: "F1 + F2 = fc"
    proof -
      have "dpes_upper ?f - dpes_lower ?f \<noteq> 0" using widths(1) by simp
      then have "fc * (dpes_upper ?f - dpes_lower ?f) / (dpes_upper ?f - dpes_lower ?f) = fc"
        by simp
      moreover have "(dpes_upper a1 - dpes_lower ?f) + (dpes_upper ?f - dpes_lower a2)
                       = dpes_upper ?f - dpes_lower ?f"
        using adj by simp
      ultimately show ?thesis
        unfolding F1_def F2_def by (metis add_divide_distrib distrib_left)
    qed
    have lhs: "count_sum (map (\<lambda>t. sd_combined' ! fst t) ts)
               = (tc1 + F1 - (P1 + F1) / 2) + (tc2 + F2 - (P2 + F2) / 2)"
      by (simp add: 3 count_sum_def row1 row2 c1 c2)
    have before: "count_sum (map snd ts) = tc1 + tc2"
      by (simp add: 3 count_sum_def count_of_def tc)
    have shared: "(\<Sum>t\<leftarrow>ts. count_of (snd t) * shared_width ?f (snd t) / bin_width (snd t)
                       + fc * shared_width ?f (snd t) / bin_width ?f)
                  = (P1 + F1) + (P2 + F2)"
      by (simp add: 3 sw1 sw2 bin_width_def count_of_def tc F1_def F2_def P1_def P2_def)
    show ?thesis
      unfolding lhs before shared using whole by (simp add: add_divide_distrib)
  qed
qed

theorem merge_bin_count_balance_witness:
  "merge_bin [(1, mk_bin Aps 5 0 10 100 1), (2, mk_bin Aps 15 10 20 200 2)] (mk_bin Smps 10 8 12 40 3)
     [mk_bin Smps 10 8 12 40 3, mk_bin Aps 5 0 10 100 1, mk_bin Aps 15 10 20 200 2]
   = Inr [mk_bin Smps 10 8 12 40 3, mk_bin Merged 5 0 10 100 1, mk_bin Merged 15 10 20 190 2]
   \<and> count_sum [mk_bin Merged 5 0 10 100 1, mk_bin Merged 15 10 20 190 2]
       = count_sum [mk_bin Aps 5 0 10 100 1, mk_bin Aps 15 10 20 200 2] + 40 - (20 + 20 + (40 + 20)) / 2"
proof -
  let ?ts = "[(1::nat, mk_bin Aps 5 0 10 100 1), (2, mk_bin Aps 15 10 20 200 2)]"
  let ?f = "mk_bin Smps 10 8 12 40 3"
  let ?T = "[?f, mk_bin Aps 5 0 10 100 1, mk_bin Aps 15 10 20 200 2]"
  let ?T' = "[?f, mk_bin Merged 5 0 10 100 1, mk_bin Merged 15 10 20 190 2]"
  have step: "merge_bin ?ts ?f ?T = Inr ?T'"
    by (simp add: merge_eval)
  have sel: "merge_selection ?ts ?f = ?ts" "?ts \<noteq> []"
    by (simp_all add: merge_selection_def py_min_def py_max_def mk_bin_def)
  have labels: "distinct (map fst ?ts)" "\<forall>t\<in>set ?ts. fst t < length ?T" by simp_all
  have counts: "dn ?f = Some 40" "\<forall>t\<in>set ?ts. dn (snd t) \<noteq> None"
    by (simp_all add: mk_bin_def)
  have widths: "dpes_lower ?f < dpes_upper ?f" "\<forall>t\<in>set ?ts. dpes_lower (snd t) < dpes_upper (snd t)"
    by (simp_all add: mk_bin_def)
  have geometry: "adjacent (map snd ?ts)" "dpes_upper ?f \<le> dpes_upper (snd (last ?ts))"
    "is_left_edge ?ts ?f \<or> dpes_lower (snd (hd ?ts)) \<le> dpes_lower ?f"
    by (simp_all add: mk_bin_def)
  show ?thesis
    using merge_bin_count_balance [OF step sel labels counts widths geometry] step
    by (simp add: count_sum_def count_of_def shared_width_def bin_width_def mk_bin_def)
qed

text \<open>
  The claim as stated fails: the APS bin [50, 150] of count 100 and the SMPS bin
  [80, 120] of count 60 hold 160 particles together, and the combiner returns one bin of
  count 110.
\<close>

theorem combine_overlap_count_counterexample:
  "combine_SMPS_APS_sd [mk_bin Aps 100 50 150 100 7] [mk_bin Smps 100 80 120 60 9] True True
   = Inr [\<lparr>flag = Merged, dpes = 100, dpes_lower = 50, dpes_upper = 150, dn = Some 110,
           dndlogd = Some (110 / (log10 150 - log10 50))\<rparr>]
   \<and> count_sum [\<lparr>flag = Merged, dpes = 100, dpes_lower = 50, dpes_upper = 150, dn = Some 110,
                  dndlogd = Some (110 / (log10 150 - log10 50))\<rparr>] = 110
   \<and> count_sum [mk_bin Aps 100 50 150 100 7] + count_sum [mk_bin Smps 100 80 120 60 9] = 160"
  by (simp add: combine_eval merge_eval count_sum_def count_of_def)

subsection \<open>Empty inputs and shapes the loop has no branch for\<close>

text \<open>
  C8, as the code has it. Nothing in the combiner looks for an empty distribution. The
  first range test (line 52) takes \<^verbatim>\<open>max\<close> of the \<open>dpes_upper\<close> column of the SMPS
  frame and \<^verbatim>\<open>min\<close> of the \<open>dpes_lower\<close> column of the APS frame with the Python
  builtins, which raise ValueError on an empty column: with an empty distribution on
  either side the call raises, whatever the flags, and returns nothing.
\<close>

theorem combine_empty_input_raises:
  "combine_SMPS_APS_sd sd_aps [] merge_overlap interpolate_gap = Inl ValueError
   \<and> combine_SMPS_APS_sd [] sd_smps merge_overlap interpolate_gap = Inl ValueError"
proof -
  have "combine_SMPS_APS_sd [] sd_smps merge_overlap interpolate_gap = Inl ValueError"
    by (cases sd_smps) (simp_all add: combine_SMPS_APS_sd_def py_max_def py_min_def)
  then show ?thesis
    by (simp add: combine_SMPS_APS_sd_def py_max_def)
qed

text \<open>
  The claim as stated fails: an APS distribution of one bin combined with an empty SMPS
  distribution is not returned; the call ends with ValueError.
\<close>

theorem combine_empty_counterexample:
  "combine_SMPS_APS_sd [mk_bin Aps 100 50 150 100 7] [] True True = Inl ValueError
   \<and> combine_SMPS_APS_sd [mk_bin Aps 100 50 150 100 7] [] True True
       \<noteq> Inr [mk_bin Aps 100 50 150 100 7]"
  by (simp add: combine_SMPS_APS_sd_def py_max_def)

text \<open>
  C2. An SMPS bin over three APS bins meets the \<^verbatim>\<open>elif\<close> of line 176 with a selection
  of three rows, for which the body has no branch: the combiner completes, the APS bins
  keep their counts and their flag, and the SMPS bin with its 50 particles is dropped.
\<close>

theorem combine_three_bin_span_drops_count:
  "combine_SMPS_APS_sd
     [mk_bin Aps (3/2) 1 2 10 1, mk_bin Aps (5/2) 2 3 20 2, mk_bin Aps (7/2) 3 4 30 3,
      mk_bin Aps (9/2) 4 5 40 4]
     [mk_bin Smps (5/2) (3/2) (7/2) 50 5] True interpolate_gap
   = Inr [mk_bin Aps (3/2) 1 2 10 1, mk_bin Aps (5/2) 2 3 20 2, mk_bin Aps (7/2) 3 4 30 3,
          mk_bin Aps (9/2) 4 5 40 4]"
  by (simp add: combine_eval merge_eval)

text \<open>
  The left-edge block does check its selection: a first SMPS bin over two APS bins stops
  the combiner at the \<^verbatim>\<open>assert\<close> of line 154.
\<close>

lemma combine_left_edge_two_targets_asserts:
  "combine_SMPS_APS_sd [mk_bin Aps (3/2) 1 2 10 1, mk_bin Aps (5/2) 2 3 20 2]
     [mk_bin Smps (3/2) (1/2) (5/2) 50 5] True interpolate_gap = Inl AssertionError"
  by (simp add: combine_eval merge_eval)

subsection \<open>What the two branches leave of the diameters\<close>

lemma dpes_recompute_modified: "map dpes (recompute_modified T) = map dpes T"
  by (induction T) (simp_all add: recompute_modified_def)

lemma length_interpolate_index: "length (interpolate_index s) = length s"
  by (simp add: interpolate_index_def Let_def)

lemma loc_slice_nat: "loc_slice (int lo) (int hi) T = take (Suc hi - lo) (drop lo T)"
proof -
  have "nat (int hi + 1 - max (int lo) 0) = Suc hi - lo" by simp
  then show ?thesis by (simp add: loc_slice_def)
qed

lemma loc_slice_parts:
  assumes "lo \<le> hi"
  shows "take lo T @ loc_slice (int lo) (int hi) T @ drop (Suc hi) T = T"
proof -
  have "take lo T @ take (Suc hi - lo) (drop lo T) = take (lo + (Suc hi - lo)) T"
    by (simp add: take_add)
  also have "lo + (Suc hi - lo) = Suc hi" using assms by simp
  finally have "(take lo T @ take (Suc hi - lo) (drop lo T)) @ drop (Suc hi) T = T"
    by (simp only: append_take_drop_id)
  then show ?thesis by (simp add: loc_slice_nat)
qed

lemma loc_slice_empty: "loc_slice (int lo) (int hi) T \<noteq> [] \<Longrightarrow> lo \<le> hi"
  by (cases "lo \<le> hi") (simp_all add: loc_slice_nat)

lemma dpes_loc_set_dndlogd: "map dpes (loc_set n (\<lambda>r. r\<lparr>dndlogd := v\<rparr>) T) = map dpes T"
  by (cases "n < length T") (auto simp: loc_set_def nth_list_update list_update_beyond intro: nth_equalityI)

lemma dpes_map2_dndlogd:
  "length vs = length xs \<Longrightarrow> map dpes (map2 (\<lambda>r v. r\<lparr>dndlogd := v\<rparr>) xs vs) = map dpes xs"
  by (induction xs vs rule: list_induct2') simp_all

lemma length_gap_with_edges:
  "length (gap_with_edges T lo hi w) = length (loc_slice (int lo) (int hi) T)"
  by (simp add: gap_with_edges_def Let_def length_loc_set)

lemma interpolate_dndlogd_gap_result:
  assumes "interpolate_dndlogd_gap T w = Inr T'"
  obtains lo hi where "edge_bin_min_idx T = Inr lo" "edge_bin_max_idx T = Inr hi" "lo \<le> hi"
    "T' = loc_set hi (\<lambda>r. r\<lparr>dndlogd := dndlogd (T ! hi)\<rparr>)
            (loc_set lo (\<lambda>r. r\<lparr>dndlogd := dndlogd (T ! lo)\<rparr>)
               (take lo T
                @ map2 (\<lambda>r v. r\<lparr>dndlogd := v\<rparr>) (loc_slice (int lo) (int hi) T)
                    (interpolate_index (map (\<lambda>r. (dpes r, dndlogd r)) (gap_with_edges T lo hi w)))
                @ drop (Suc hi) T))"
proof -
  from assms obtain lo where lo: "edge_bin_min_idx T = Inr lo"
    by (cases "edge_bin_min_idx T") (simp_all add: interpolate_dndlogd_gap_def)
  from assms obtain hi where hi: "edge_bin_max_idx T = Inr hi"
    by (cases "edge_bin_max_idx T") (simp_all add: interpolate_dndlogd_gap_def lo)
  have ne: "loc_slice (int lo) (int hi) T \<noteq> []"
    using assms by (auto simp: interpolate_dndlogd_gap_def lo hi)
  show thesis
    using assms that [OF lo hi loc_slice_empty [OF ne]]
    by (simp add: interpolate_dndlogd_gap_def lo hi ne Let_def)
qed

lemma interpolate_dndlogd_gap_dpes:
  assumes "interpolate_dndlogd_gap T w = Inr T'"
  shows "map dpes T' = map dpes T"
proof -
  from assms obtain lo hi where le: "lo \<le> hi"
    and eq: "T' = loc_set hi (\<lambda>r. r\<lparr>dndlogd := dndlogd (T ! hi)\<rparr>)
            (loc_set lo (\<lambda>r. r\<lparr>dndlogd := dndlogd (T ! lo)\<rparr>)
               (take lo T
                @ map2 (\<lambda>r v. r\<lparr>dndlogd := v\<rparr>) (loc_slice (int lo) (int hi) T)
                    (interpolate_index (map (\<lambda>r. (dpes r, dndlogd r)) (gap_with_edges T lo hi w)))
                @ drop (Suc hi) T))"
    by (rule interpolate_dndlogd_gap_result)
  have len: "length (interpolate_index (map (\<lambda>r. (dpes r, dndlogd r)) (gap_with_edges T lo hi w)))
             = length (loc_slice (int lo) (int hi) T)"
    by (simp add: length_interpolate_index length_gap_with_edges)
  have "map dpes T' = map dpes (take lo T @ loc_slice (int lo) (int hi) T @ drop (Suc hi) T)"
    unfolding eq by (simp only: map_append dpes_loc_set_dndlogd dpes_map2_dndlogd [OF len])
  also have "\<dots> = map dpes T"
    by (simp only: loc_slice_parts [OF le])
  finally show ?thesis .
qed

subsection \<open>Evaluating the gap branch on rows written out\<close>

lemma log10_pow: "log10 (10 ^ n) = real n"
  by (simp add: log10_def)

lemma log10_values:
  "log10 1 = 0" "log10 10 = 1" "log10 100 = 2" "log10 1000 = 3" "log10 10000 = 4"
  "log10 100000 = 5" "log10 1000000 = 6" "log10 10000000 = 7" "log10 100000000 = 8"
  using log10_pow [of 0] log10_pow [of 1] log10_pow [of 2] log10_pow [of 3] log10_pow [of 4]
    log10_pow [of 5] log10_pow [of 6] log10_pow [of 7] log10_pow [of 8]
  by simp_all

lemma log10_tenth: "log10 (1 / 10) = - 1"
  using log_inverse [of 10 10] by (simp add: log10_def inverse_eq_divide)

lemma py_round_int: "py_round (of_int k) = k"
  by (simp add: py_round_def Let_def)

lemma py_round_1: "py_round 1 = 1"
  using py_round_int [of 1] by simp

lemmas gap_eval = interpolate_gap_branch_def interpolate_dndlogd_gap_def
  edge_bin_min_idx_def edge_bin_max_idx_def edge_bin_min_dndlogd_avg_def edge_bin_max_dndlogd_avg_def
  gap_with_edges_def interpolate_index_def idxmax_def idxmin_def mean_skipna_def loc_slice_def
  get_interpol_resolution_def get_channel_resolution_def get_bin_boundaries_in_interval_def
  logspace_def py_round_1 log10_values log10_tenth upt_rec

subsection \<open>The rows of the frame after the densities are interpolated\<close>

lemma fold_pick_mem:
  "fold (\<lambda>q best. if c q best then q else best) r p \<in> set (p # r)"
proof (induction r arbitrary: p)
  case Nil
  show ?case by simp
next
  case (Cons q r)
  show ?case using Cons.IH [of "if c q p then q else p"] by auto
qed

lemma idxmax_mem: "idxmax s = Inr i \<Longrightarrow> i \<in> fst ` set s"
proof (cases s)
  case Nil
  assume "idxmax s = Inr i"
  with Nil show ?thesis by (simp add: idxmax_def)
next
  case (Cons p r)
  assume "idxmax s = Inr i"
  with Cons have "i = fst (fold (\<lambda>q best. if snd best < snd q then q else best) r p)"
    by (simp add: idxmax_def)
  then show ?thesis
    using fold_pick_mem [of "\<lambda>q best. snd best < snd q" r p] Cons by auto
qed

lemma idxmin_mem: "idxmin s = Inr i \<Longrightarrow> i \<in> fst ` set s"
proof (cases s)
  case Nil
  assume "idxmin s = Inr i"
  with Nil show ?thesis by (simp add: idxmin_def)
next
  case (Cons p r)
  assume "idxmin s = Inr i"
  with Cons have "i = fst (fold (\<lambda>q best. if snd q < snd best then q else best) r p)"
    by (simp add: idxmin_def)
  then show ?thesis
    using fold_pick_mem [of "\<lambda>q best. snd q < snd best" r p] Cons by auto
qed

lemma edge_bin_min_idx_range:
  assumes "edge_bin_min_idx T = Inr lo"
  shows "lo < length T \<and> flag (T ! lo) = Smps"
  using idxmax_mem [OF assms [unfolded edge_bin_min_idx_def]]
  by (auto simp: in_set_enumerate_eq split: if_splits)

lemma edge_bin_max_idx_range:
  assumes "edge_bin_max_idx T = Inr hi"
  shows "hi < length T \<and> flag (T ! hi) = Aps"
  using idxmin_mem [OF assms [unfolded edge_bin_max_idx_def]]
  by (auto simp: in_set_enumerate_eq split: if_splits)

lemma loc_slice_shape:
  assumes "lo < hi" "hi < length T"
  shows "loc_slice (int lo) (int hi) T = T ! lo # take (hi - lo - 1) (drop (Suc lo) T) @ [T ! hi]"
proof -
  define n where "n = hi - lo - 1"
  have hn: "hi - lo = Suc n" and hi: "hi = Suc lo + n" using assms by (simp_all add: n_def)
  have lo: "lo < length T" using assms by simp
  have n: "n < length (drop (Suc lo) T)" using assms by (simp add: n_def)
  have "take (Suc hi - lo) (drop lo T) = take (Suc (Suc n)) (T ! lo # drop (Suc lo) T)"
    using assms lo hn by (simp add: Cons_nth_drop_Suc Suc_diff_le)
  also have "\<dots> = T ! lo # take (Suc n) (drop (Suc lo) T)" by simp
  also have "take (Suc n) (drop (Suc lo) T) = take n (drop (Suc lo) T) @ [drop (Suc lo) T ! n]"
    by (rule take_Suc_conv_app_nth [OF n])
  also have "drop (Suc lo) T ! n = T ! hi" using assms hi by simp
  finally show ?thesis by (simp add: loc_slice_nat n_def)
qed

lemma loc_set_ends:
  "loc_set (length (x # mid @ [y]) - 1) g (loc_set 0 f (x # mid @ [y])) = f x # mid @ [g y]"
  by (simp add: loc_set_def)

lemma gap_with_edges_shape:
  assumes "lo < hi" "hi < length T"
  shows "gap_with_edges T lo hi w =
           (T ! lo)\<lparr>dndlogd := edge_bin_min_dndlogd_avg T lo w\<rparr>
           # take (hi - lo - 1) (drop (Suc lo) T)
           @ [(T ! hi)\<lparr>dndlogd := edge_bin_max_dndlogd_avg T hi w\<rparr>]"
proof -
  let ?x = "T ! lo" and ?mid = "take (hi - lo - 1) (drop (Suc lo) T)" and ?y = "T ! hi"
  have "gap_with_edges T lo hi w
        = loc_set (length (?x # ?mid @ [?y]) - 1)
            (\<lambda>r. r\<lparr>dndlogd := edge_bin_max_dndlogd_avg T hi w\<rparr>)
            (loc_set 0 (\<lambda>r. r\<lparr>dndlogd := edge_bin_min_dndlogd_avg T lo w\<rparr>) (?x # ?mid @ [?y]))"
    unfolding gap_with_edges_def loc_slice_shape [OF assms] Let_def
    by (simp only: length_loc_set)
  then show ?thesis by (simp only: loc_set_ends)
qed


lemma splice_nth:
  assumes "lo \<le> hi" "hi < length T" "length vs = Suc hi - lo" "i < length T"
  shows "(take lo T @ map2 (\<lambda>r v. r\<lparr>dndlogd := v\<rparr>) (take (Suc hi - lo) (drop lo T)) vs
            @ drop (Suc hi) T) ! i
         = (if lo \<le> i \<and> i \<le> hi then (T ! i)\<lparr>dndlogd := vs ! (i - lo)\<rparr> else T ! i)"
proof -
  let ?mid = "map2 (\<lambda>r v. r\<lparr>dndlogd := v\<rparr>) (take (Suc hi - lo) (drop lo T)) vs"
  have l1: "length (take lo T) = lo" using assms by simp
  have l2: "length ?mid = Suc hi - lo" using assms by simp
  consider "i < lo" | "lo \<le> i" "i \<le> hi" | "hi < i" by linarith
  then show ?thesis
  proof cases
    case 1
    then show ?thesis using l1 by (simp add: nth_append)
  next
    case 2
    then have k: "i - lo < Suc hi - lo" by linarith
    have "(take lo T @ ?mid @ drop (Suc hi) T) ! i = ?mid ! (i - lo)"
      using 2 l1 l2 k by (simp add: nth_append)
    also have "\<dots> = (T ! i)\<lparr>dndlogd := vs ! (i - lo)\<rparr>"
      using 2 k assms by simp
    finally show ?thesis using 2 by simp
  next
    case 3
    have "(take lo T @ ?mid @ drop (Suc hi) T) ! i = drop (Suc hi) T ! (i - lo - (Suc hi - lo))"
      using 3 assms l1 l2 by (simp add: nth_append)
    also have "i - lo - (Suc hi - lo) = i - Suc hi" using 3 assms by linarith
    also have "drop (Suc hi) T ! (i - Suc hi) = T ! i" using 3 assms by simp
    finally show ?thesis using 3 by simp
  qed
qed

lemma splice_length:
  assumes "lo \<le> hi" "hi < length T" "length vs = Suc hi - lo"
  shows "length (take lo T @ map2 (\<lambda>r v. r\<lparr>dndlogd := v\<rparr>) (take (Suc hi - lo) (drop lo T)) vs
            @ drop (Suc hi) T) = length T"
  using assms by simp

lemma interpolate_dndlogd_gap_nth:
  assumes "interpolate_dndlogd_gap T w = Inr Z"
  obtains lo hi where "edge_bin_min_idx T = Inr lo" "edge_bin_max_idx T = Inr hi"
    "lo < hi" "hi < length T" "length Z = length T"
    "\<And>i. i < length T \<Longrightarrow>
       Z ! i = (if lo < i \<and> i < hi
                then (T ! i)\<lparr>dndlogd :=
                       interpolate_index (map (\<lambda>r. (dpes r, dndlogd r)) (gap_with_edges T lo hi w))
                         ! (i - lo)\<rparr>
                else T ! i)"
proof -
  from assms obtain lo hi where lo: "edge_bin_min_idx T = Inr lo" and hi: "edge_bin_max_idx T = Inr hi"
    and le: "lo \<le> hi"
    and Z: "Z = loc_set hi (\<lambda>r. r\<lparr>dndlogd := dndlogd (T ! hi)\<rparr>)
            (loc_set lo (\<lambda>r. r\<lparr>dndlogd := dndlogd (T ! lo)\<rparr>)
               (take lo T
                @ map2 (\<lambda>r v. r\<lparr>dndlogd := v\<rparr>) (loc_slice (int lo) (int hi) T)
                    (interpolate_index (map (\<lambda>r. (dpes r, dndlogd r)) (gap_with_edges T lo hi w)))
                @ drop (Suc hi) T))"
    by (rule interpolate_dndlogd_gap_result)
  let ?vs = "interpolate_index (map (\<lambda>r. (dpes r, dndlogd r)) (gap_with_edges T lo hi w))"
  let ?M = "take lo T @ map2 (\<lambda>r v. r\<lparr>dndlogd := v\<rparr>) (take (Suc hi - lo) (drop lo T)) ?vs
            @ drop (Suc hi) T"
  have hiT: "hi < length T" and fhi: "flag (T ! hi) = Aps"
    using edge_bin_max_idx_range [OF hi] by simp_all
  have flo: "flag (T ! lo) = Smps" using edge_bin_min_idx_range [OF lo] by simp
  have "lo \<noteq> hi" using flo fhi by auto
  with le have lt: "lo < hi" by simp
  have len: "length ?vs = Suc hi - lo"
    using hiT by (simp add: length_interpolate_index length_gap_with_edges loc_slice_nat)
  have Z': "Z = loc_set hi (\<lambda>r. r\<lparr>dndlogd := dndlogd (T ! hi)\<rparr>)
                  (loc_set lo (\<lambda>r. r\<lparr>dndlogd := dndlogd (T ! lo)\<rparr>) ?M)"
    unfolding Z loc_slice_nat ..
  have lenM: "length ?M = length T" by (rule splice_length [OF le hiT len])
  have lenZ: "length Z = length T" unfolding Z' by (simp only: length_loc_set lenM)
  have rows: "Z ! i = (if lo < i \<and> i < hi then (T ! i)\<lparr>dndlogd := ?vs ! (i - lo)\<rparr> else T ! i)"
    if i: "i < length T" for i
  proof -
    have M: "?M ! i = (if lo \<le> i \<and> i \<le> hi then (T ! i)\<lparr>dndlogd := ?vs ! (i - lo)\<rparr> else T ! i)"
      by (rule splice_nth [OF le hiT len i])
    have Mlo: "?M ! lo = (T ! lo)\<lparr>dndlogd := ?vs ! 0\<rparr>"
      using splice_nth [OF le hiT len, of lo] lt hiT by simp
    have Mhi: "?M ! hi = (T ! hi)\<lparr>dndlogd := ?vs ! (hi - lo)\<rparr>"
      using splice_nth [OF le hiT len, of hi] lt hiT by simp
    let ?ra = "\<lambda>r. r\<lparr>dndlogd := dndlogd (T ! lo)\<rparr>"
    let ?rb = "\<lambda>r. r\<lparr>dndlogd := dndlogd (T ! hi)\<rparr>"
    have ra: "?ra (?M ! lo) = T ! lo" unfolding Mlo by simp
    have A: "loc_set lo ?ra ?M ! j = (if j = lo then T ! lo else ?M ! j)" for j
      using lt hiT lenM ra by (simp only: loc_set_nth) simp
    have rb: "?rb (loc_set lo ?ra ?M ! hi) = T ! hi"
      unfolding A Mhi using lt by simp
    have B: "Z ! i = (if i = hi then T ! hi else loc_set lo ?ra ?M ! i)"
      unfolding Z' using hiT lenM rb by (simp only: loc_set_nth length_loc_set) simp
    consider "i = lo" | "i = hi" | "lo < i" "i < hi" | "i < lo" | "hi < i" by linarith
    then show ?thesis
    proof cases
      case 1
      then show ?thesis unfolding B A using lt by simp
    next
      case 2
      then show ?thesis unfolding B by simp
    next
      case 3
      then show ?thesis unfolding B A M by simp
    next
      case 4
      then show ?thesis unfolding B A M using lt by simp
    next
      case 5
      then show ?thesis unfolding B A M using lt by simp
    qed
  qed
  show thesis
    by (rule that [OF lo hi lt hiT lenZ rows])
qed

lemma interpolate_index_nth:
  assumes "k < length s"
  shows "interpolate_index s ! k =
           (case snd (s ! k) of
              Some v \<Rightarrow> Some v
            | None \<Rightarrow>
                if k < length (takeWhile (\<lambda>c. snd c = None) s)
                   \<or> sort_key fst [(x, v). (x, Some v) \<leftarrow> s] = []
                then None
                else Some (np_interp (sort_key fst [(x, v). (x, Some v) \<leftarrow> s]) (fst (s ! k))))"
proof (cases "s ! k")
  case (Pair x y)
  then show ?thesis
    using assms by (cases y) (simp_all add: interpolate_index_def Let_def nth_enumerate_eq)
qed

lemma gap_with_edges_interior:
  assumes "lo < i" "i < hi" "hi < length T"
  shows "gap_with_edges T lo hi w ! (i - lo) = T ! i"
proof -
  have lh: "lo < hi" using assms by simp
  define k where "k = i - lo - 1"
  have k1: "i - lo = Suc k" and k2: "k < hi - lo - 1" and k3: "Suc lo + k = i"
    using assms by (simp_all add: k_def)
  let ?mid = "take (hi - lo - 1) (drop (Suc lo) T)"
  have len: "length ?mid = hi - lo - 1" using assms by simp
  have "gap_with_edges T lo hi w ! Suc k = (?mid @ [(T ! hi)\<lparr>dndlogd := edge_bin_max_dndlogd_avg T hi w\<rparr>]) ! k"
    unfolding gap_with_edges_shape [OF lh assms(3)] by simp
  also have "\<dots> = ?mid ! k" using k2 len by (simp add: nth_append)
  also have "\<dots> = T ! (Suc lo + k)" using k2 assms by simp
  finally show ?thesis unfolding k1 k3 .
qed


lemma interpolate_dndlogd_gap_keeps:
  assumes Z: "interpolate_dndlogd_gap T w = Inr Z" and i: "i < length T"
    and d: "dndlogd (T ! i) \<noteq> None"
  shows "Z ! i = T ! i"
proof (rule interpolate_dndlogd_gap_nth [OF Z])
  fix lo hi
  assume lt: "lo < hi" and hi: "hi < length T"
    and rows: "\<And>i. i < length T \<Longrightarrow>
       Z ! i = (if lo < i \<and> i < hi
                then (T ! i)\<lparr>dndlogd :=
                       interpolate_index (map (\<lambda>r. (dpes r, dndlogd r)) (gap_with_edges T lo hi w))
                         ! (i - lo)\<rparr>
                else T ! i)"
  show ?thesis
  proof (cases "lo < i \<and> i < hi")
    case False
    then show ?thesis using rows [OF i] by auto
  next
    case True
    let ?s = "map (\<lambda>r. (dpes r, dndlogd r)) (gap_with_edges T lo hi w)"
    have "i - lo < Suc hi - lo" using True by linarith
    then have k: "i - lo < length ?s"
      using hi by (simp add: length_gap_with_edges loc_slice_nat)
    have "gap_with_edges T lo hi w ! (i - lo) = T ! i"
      using True hi by (intro gap_with_edges_interior) simp_all
    then have cell: "?s ! (i - lo) = (dpes (T ! i), dndlogd (T ! i))"
      using k by simp
    from d obtain v where v: "dndlogd (T ! i) = Some v" by auto
    have "interpolate_index ?s ! (i - lo) = Some v"
      unfolding interpolate_index_nth [OF k] cell by (simp add: v)
    then show ?thesis using rows [OF i] True v by simp
  qed
qed

lemma interpolate_dndlogd_gap_fields:
  assumes Z: "interpolate_dndlogd_gap T w = Inr Z" and i: "i < length T"
  shows "flag (Z ! i) = flag (T ! i) \<and> dpes (Z ! i) = dpes (T ! i)
         \<and> dpes_lower (Z ! i) = dpes_lower (T ! i) \<and> dpes_upper (Z ! i) = dpes_upper (T ! i)
         \<and> dn (Z ! i) = dn (T ! i)"
proof (rule interpolate_dndlogd_gap_nth [OF Z])
  fix lo hi
  assume rows: "\<And>i. i < length T \<Longrightarrow>
       Z ! i = (if lo < i \<and> i < hi
                then (T ! i)\<lparr>dndlogd :=
                       interpolate_index (map (\<lambda>r. (dpes r, dndlogd r)) (gap_with_edges T lo hi w))
                         ! (i - lo)\<rparr>
                else T ! i)"
  show ?thesis using rows [OF i] by simp
qed

lemma interpolate_dndlogd_gap_length:
  assumes Z: "interpolate_dndlogd_gap T w = Inr Z"
  shows "length Z = length T"
  by (rule interpolate_dndlogd_gap_nth [OF Z])

subsection \<open>Two anchors and a run of empty cells\<close>

lemma np_interp_two:
  assumes "x0 < x1" "x0 \<le> x" "x \<le> x1"
  shows "np_interp [(x0, a), (x1, b)] x = (b - a) / (x1 - x0) * (x - x0) + a"
proof (cases "x < x1")
  case True
  then show ?thesis using assms by auto
next
  case False
  then have "x = x1" using assms by simp
  moreover have "(b - a) / (x1 - x0) * (x1 - x0) = b - a" using assms by simp
  ultimately show ?thesis by simp
qed

lemma valid_cells_of_gap:
  assumes "\<forall>r\<in>set mid. dndlogd r = None"
  shows "[(x, v). (x, Some v) \<leftarrow> (x0, Some a) # map (\<lambda>r. (dpes r, dndlogd r)) mid @ [(x1, Some b)]]
         = [(x0, a), (x1, b)]"
  using assms by (induction mid) simp_all

subsection \<open>The rows of the instruments through the gap branch\<close>

lemma filter_agree:
  assumes "list_all2 (\<lambda>z t. (P z \<longleftrightarrow> P t) \<and> (P t \<longrightarrow> z = t)) Z T"
  shows "filter P Z = filter P T"
  using assms by (induction rule: list_all2_induct) auto

lemma original_recompute_modified:
  "filter original (recompute_modified W) = filter original W"
  by (induction W) (auto simp: recompute_modified_def original_def)

lemma original_recount: "filter original (map recount W) = map recount (filter original W)"
  by (induction W) (auto simp: recount_def original_def)

lemma interpolate_gap_branch_result:
  assumes "interpolate_gap_branch sd_smps sd_aps X = Inr Y"
  shows "\<exists>I Z. (\<forall>r\<in>set I. flag r = Interpolated)
           \<and> interpolate_dndlogd_gap (sort_key dpes (X @ I)) 3 = Inr Z \<and> Y = map recount Z"
proof -
  from assms have "\<exists>lower upper Z.
      interpolate_dndlogd_gap (sort_key dpes (X @
         map2 (\<lambda>l u. \<lparr>flag = Interpolated, dpes = (l + u) / 2, dpes_lower = l,
                                dpes_upper = u, dn = None, dndlogd = None\<rparr>) lower upper)) 3 = Inr Z
      \<and> Y = map recount Z"
    by (auto simp: interpolate_gap_branch_def Let_def recount_def [abs_def]
          split: sum.splits if_splits prod.splits)
  then obtain lower upper Z where
    Z: "interpolate_dndlogd_gap (sort_key dpes (X @
         map2 (\<lambda>l u. \<lparr>flag = Interpolated, dpes = (l + u) / 2, dpes_lower = l,
                                dpes_upper = u, dn = None, dndlogd = None\<rparr>) lower upper)) 3 = Inr Z"
    and Y: "Y = map recount Z" by blast
  have "\<forall>r\<in>set (map2 (\<lambda>l u. \<lparr>flag = Interpolated, dpes = (l + u) / 2, dpes_lower = l,
                                dpes_upper = u, dn = None, dndlogd = None\<rparr>) lower upper).
          flag r = Interpolated"
    by auto
  with Z Y show ?thesis by blast
qed


lemma gap_fill_keeps_original_rows:
  assumes Z: "interpolate_dndlogd_gap (sort_key dpes (X @ I)) w = Inr Z"
    and X: "\<forall>r\<in>set X. original r \<and> dndlogd r \<noteq> None"
    and I: "\<forall>r\<in>set I. flag r = Interpolated"
  shows "filter original Z = sort_key dpes X"
proof -
  let ?T = "sort_key dpes (X @ I)"
  have len: "length Z = length ?T" by (rule interpolate_dndlogd_gap_length [OF Z])
  have rows: "(original (Z ! i) \<longleftrightarrow> original (?T ! i)) \<and> (original (?T ! i) \<longrightarrow> Z ! i = ?T ! i)"
    if i: "i < length ?T" for i
  proof -
    have f: "flag (Z ! i) = flag (?T ! i)"
      using interpolate_dndlogd_gap_fields [OF Z i] by simp
    have "?T ! i \<in> set (X @ I)" using i by (metis nth_mem set_sort)
    then have "original (?T ! i) \<longrightarrow> dndlogd (?T ! i) \<noteq> None"
      using X I by (auto simp: original_def)
    then have "original (?T ! i) \<longrightarrow> Z ! i = ?T ! i"
      using interpolate_dndlogd_gap_keeps [OF Z i] by blast
    then show ?thesis using f by (simp add: original_def)
  qed
  have "list_all2 (\<lambda>z t. (original z \<longleftrightarrow> original t) \<and> (original t \<longrightarrow> z = t)) Z ?T"
    using len rows by (simp add: list_all2_conv_all_nth)
  then have "filter original Z = filter original ?T" by (rule filter_agree)
  also have "\<dots> = sort_key dpes (filter original (X @ I))" by (rule filter_sort)
  also have "filter original (X @ I) = X"
    using X I by (auto simp: original_def filter_id_conv filter_empty_conv)
  finally show ?thesis .
qed

subsection \<open>Distinct diameters\<close>

lemma size_distribution_flag:
  "size_distribution (map (\<lambda>r. r\<lparr>flag := p\<rparr>) sd) = size_distribution sd"
  by (simp add: size_distribution_def sorted_wrt_map)

lemma size_distribution_bounds:
  assumes "size_distribution sd" and "r \<in> set sd"
  shows "0 < dpes_lower r" and "dpes_lower r < dpes r" and "dpes r < dpes_upper r"
  using assms by (simp_all add: size_distribution_def)

lemma size_distribution_nth:
  assumes "size_distribution sd" and "i < j" and "j < length sd"
  shows "dpes_upper (sd ! i) \<le> dpes_lower (sd ! j)"
  using assms by (simp add: size_distribution_def sorted_wrt_iff_nth_less)

lemma size_distribution_strict:
  assumes "size_distribution sd"
  shows "sorted_wrt (<) (map dpes sd)"
proof -
  have s: "sorted_wrt (\<lambda>a b. dpes_upper a \<le> dpes_lower b) sd"
    using assms by (simp add: size_distribution_def)
  have "sorted_wrt (\<lambda>a b. dpes a < dpes b) sd"
  proof (rule sorted_wrt_mono_rel [OF _ s])
    fix a b assume a: "a \<in> set sd" and b: "b \<in> set sd" and ab: "dpes_upper a \<le> dpes_lower b"
    have "dpes a < dpes_upper a" using size_distribution_bounds(3) [OF assms a] .
    moreover have "dpes_lower b < dpes b" using size_distribution_bounds(2) [OF assms b] .
    ultimately show "dpes a < dpes b" using ab by linarith
  qed
  then show ?thesis by (simp add: sorted_wrt_map)
qed

lemma distinct_map_sort_key: "distinct (map f (sort_key f xs)) = distinct (map f xs)"
  by (induction xs) (simp_all add: distinct_insort_key)

lemma strict_sort_key:
  assumes "distinct (map f xs)"
  shows "sorted_wrt (<) (map f (sort_key f xs))"
  using assms by (simp add: strict_sorted_iff distinct_map_sort_key)

subsection \<open>The diameters the merge loop leaves\<close>

lemma left_edge_selection_filter:
  assumes "is_left_edge A g" and "merge_selection A g = [t]"
  shows "filter (\<lambda>a. dpes_lower (snd a) < dpes_upper g) A = [t]"
proof -
  from assms(1) obtain m where m: "py_min (map (\<lambda>a. dpes_lower (snd a)) A) = Inr m"
    and lt: "dpes_lower g < m"
    by (auto simp: is_left_edge_def split: sum.splits)
  have "merge_selection A g
          = (case filter (\<lambda>a. dpes_lower (snd a) < dpes_upper g) A of [t] \<Rightarrow> [t] | _ \<Rightarrow> [])"
    unfolding merge_selection_def m using lt by simp
  with assms(2) show ?thesis
    by (simp split: list.splits)
qed

lemma left_edge_below:
  assumes "is_left_edge A g" and "(i, a) \<in> set A"
  shows "dpes_lower g < dpes_lower a"
proof -
  from assms(1) obtain m where m: "py_min (map (\<lambda>a. dpes_lower (snd a)) A) = Inr m"
    and lt: "dpes_lower g < m"
    by (auto simp: is_left_edge_def split: sum.splits)
  have "m \<le> dpes_lower (snd (i, a))" by (rule py_min_le [OF m assms(2)])
  with lt show ?thesis by simp
qed

lemma apply_selection_dpes:
  assumes i: "i < length U"
  shows "dpes (apply_selection A g U ! i) = dpes (U ! i)
       \<or> (\<exists>a. (i, a) \<in> set A \<and> dpes (apply_selection A g U ! i) = dpes a)
       \<or> (\<exists>a. is_left_edge A g \<and> merge_selection A g = [(i, a)]
              \<and> dpes (apply_selection A g U ! i) = (dpes_lower g + dpes_upper a) / 2)"
proof -
  consider "merge_selection A g = []"
    | n a where "merge_selection A g = [(n, a)]"
    | n1 a1 n2 a2 where "merge_selection A g = [(n1, a1), (n2, a2)]"
    using merge_selection_shape [of A g] by fastforce
  then show ?thesis
  proof cases
    case 1
    then show ?thesis by (simp add: apply_selection_def)
  next
    case 2
    have mem: "(n, a) \<in> set A" using merge_selection_member [of "(n, a)" A g] 2 by simp
    show ?thesis
    proof (cases "i = n")
      case False
      then show ?thesis using 2 by (simp add: apply_selection_def loc_set_nth)
    next
      case True
      show ?thesis
      proof (cases "is_left_edge A g")
        case le: True
        have "dpes (apply_selection A g U ! i) = (dpes_lower g + dpes_upper a) / 2"
          using 2 le True i by (simp add: apply_selection_def loc_set_nth left_edge_row_def)
        then show ?thesis using le 2 True by blast
      next
        case le: False
        have "dpes (apply_selection A g U ! i) = dpes a"
          using 2 le True i by (simp add: apply_selection_def loc_set_nth embraced_row_def)
        then show ?thesis using mem True by blast
      qed
    qed
  next
    case 3
    have mem1: "(n1, a1) \<in> set A" using merge_selection_member [of "(n1, a1)" A g] 3 by simp
    have mem2: "(n2, a2) \<in> set A" using merge_selection_member [of "(n2, a2)" A g] 3 by simp
    consider "i = n2" | "i \<noteq> n2" "i = n1" | "i \<noteq> n2" "i \<noteq> n1" by blast
    then show ?thesis
    proof cases
      case 1
      have "dpes (apply_selection A g U ! i) = dpes a2"
        using 3 1 i by (simp add: apply_selection_def loc_set_nth length_loc_set boundary_row_def)
      then show ?thesis using mem2 1 by blast
    next
      case 2
      have "dpes (apply_selection A g U ! i) = dpes a1"
        using 3 2 i by (simp add: apply_selection_def loc_set_nth length_loc_set boundary_row_def)
      then show ?thesis using mem1 2 by blast
    next
      case 3
      then show ?thesis
        using \<open>merge_selection A g = [(n1, a1), (n2, a2)]\<close>
        by (simp add: apply_selection_def loc_set_nth length_loc_set)
    qed
  qed
qed

lemma merge_loop_dpes:
  assumes "merge_loop A gs T = Inr T'" and "i < length T"
  shows "dpes (T' ! i) = dpes (T ! i)
       \<or> (\<exists>a. (i, a) \<in> set A \<and> dpes (T' ! i) = dpes a)
       \<or> (\<exists>g a. g \<in> set gs \<and> is_left_edge A g \<and> merge_selection A g = [(i, a)]
              \<and> dpes (T' ! i) = (dpes_lower g + dpes_upper a) / 2)"
  using assms
proof (induction gs arbitrary: T)
  case Nil
  then show ?case by simp
next
  case (Cons g gs)
  from Cons.prems(1) obtain T1 where 1: "merge_bin A g T = Inr T1"
    and 2: "merge_loop A gs T1 = Inr T'"
    by (auto split: sum.splits)
  have T1: "T1 = apply_selection A g T"
    using merge_bin_by_selection [OF 1, of T] 1 by simp
  have len: "i < length T1" using Cons.prems(2) by (simp add: T1 apply_selection_length)
  from Cons.IH [OF 2 len]
  consider "dpes (T' ! i) = dpes (T1 ! i)"
    | "\<exists>a. (i, a) \<in> set A \<and> dpes (T' ! i) = dpes a"
    | "\<exists>g a. g \<in> set gs \<and> is_left_edge A g \<and> merge_selection A g = [(i, a)]
              \<and> dpes (T' ! i) = (dpes_lower g + dpes_upper a) / 2"
    by blast
  then show ?case
  proof cases
    case 1
    from apply_selection_dpes [OF Cons.prems(2), of A g]
    consider "dpes (T1 ! i) = dpes (T ! i)"
      | "\<exists>a. (i, a) \<in> set A \<and> dpes (T1 ! i) = dpes a"
      | "\<exists>a. is_left_edge A g \<and> merge_selection A g = [(i, a)]
              \<and> dpes (T1 ! i) = (dpes_lower g + dpes_upper a) / 2"
      unfolding T1 by blast
    then show ?thesis
    proof cases
      case 1
      then show ?thesis using \<open>dpes (T' ! i) = dpes (T1 ! i)\<close> by simp
    next
      case 2
      then show ?thesis using \<open>dpes (T' ! i) = dpes (T1 ! i)\<close> by simp
    next
      case 3
      then obtain a where "is_left_edge A g" "merge_selection A g = [(i, a)]"
        "dpes (T1 ! i) = (dpes_lower g + dpes_upper a) / 2" by blast
      then have "g \<in> set (g # gs) \<and> is_left_edge A g \<and> merge_selection A g = [(i, a)]
              \<and> dpes (T' ! i) = (dpes_lower g + dpes_upper a) / 2"
        using \<open>dpes (T' ! i) = dpes (T1 ! i)\<close> by simp
      then show ?thesis by blast
    qed
  next
    case 2
    then show ?thesis by blast
  next
    case 3
    then obtain g' a where "g' \<in> set gs" "is_left_edge A g'" "merge_selection A g' = [(i, a)]"
      "dpes (T' ! i) = (dpes_lower g' + dpes_upper a) / 2" by blast
    then have "g' \<in> set (g # gs) \<and> is_left_edge A g' \<and> merge_selection A g' = [(i, a)]
              \<and> dpes (T' ! i) = (dpes_lower g' + dpes_upper a) / 2" by simp
    then show ?thesis by blast
  qed
qed

lemma comprehension_filter: "[f b. b \<leftarrow> xs, P b] = map f (filter P xs)"
  by (induction xs) simp_all

lemma enumerate_fst_sorted: "sorted_wrt (\<lambda>p q. fst p < fst q) (enumerate k xs)"
  by (simp add: sorted_wrt_iff_nth_less nth_enumerate_eq)

lemma merge_overlap_branch_strict:
  assumes X: "\<forall>r\<in>set X. flag r = Smps" and Y: "\<forall>r\<in>set Y. flag r = Aps"
    and wfX: "size_distribution X" and wfY: "size_distribution Y"
    and M: "merge_overlap_branch (X @ Y) = Inr M"
  shows "sorted_wrt (<) (map dpes M)"
proof -
  let ?F = "X @ Y" and ?n = "length X"
  from M obtain S A T' where S: "smps_overlap_of ?F = Inr S" and A: "aps_overlap_of ?F = Inr A"
    and loop: "merge_loop A (map snd S) ?F = Inr T'"
    and M': "M = sort_key dpes (drop_labels (map fst S) T')"
    by (auto simp: merge_overlap_branch_def split: sum.splits)
  from S obtain l where l: "py_min (map dpes_lower (filter (\<lambda>b. flag b = Aps) ?F)) = Inr l"
    and Sdef: "S = filter (\<lambda>(i, b). flag b = Smps \<and> l < dpes_upper b) (enumerate 0 ?F)"
    unfolding smps_overlap_of_def comprehension_filter by (auto split: sum.splits)
  from A obtain u where u: "py_max (map dpes_upper (filter (\<lambda>b. flag b = Smps) ?F)) = Inr u"
    and Adef: "A = filter (\<lambda>(i, b). flag b = Aps \<and> dpes_lower b < u) (enumerate 0 ?F)"
    unfolding aps_overlap_of_def comprehension_filter by (auto split: sum.splits)
  have in_S: "(k, g) \<in> set S \<longleftrightarrow> k < length ?F \<and> g = ?F ! k \<and> flag g = Smps \<and> l < dpes_upper g"
    for k g by (auto simp: Sdef in_set_enumerate_eq)
  have in_A: "(i, a) \<in> set A \<longleftrightarrow> i < length ?F \<and> a = ?F ! i \<and> flag a = Aps \<and> dpes_lower a < u"
    for i a by (auto simp: Adef in_set_enumerate_eq)
  have smps_eq: "?F ! i = X ! i" and smps_flag: "flag (?F ! i) = Smps" if "i < ?n" for i
    using that X by (simp_all add: nth_append)
  have aps_eq: "?F ! i = Y ! (i - ?n)" and aps_flag: "flag (?F ! i) = Aps"
    if "?n \<le> i" "i < length ?F" for i
  proof -
    have "i - ?n < length Y" using that by simp
    then have "Y ! (i - ?n) \<in> set Y" by simp
    then show "?F ! i = Y ! (i - ?n)" and "flag (?F ! i) = Aps"
      using that Y by (simp_all add: nth_append)
  qed
  have bounds: "dpes_lower (?F ! i) < dpes (?F ! i) \<and> dpes (?F ! i) < dpes_upper (?F ! i)"
    if "i < length ?F" for i
  proof (cases "i < ?n")
    case True
    then have "X ! i \<in> set X" by simp
    from size_distribution_bounds(2,3) [OF wfX this] show ?thesis
      by (simp add: smps_eq [OF True])
  next
    case False
    then have n: "?n \<le> i" by simp
    then have "i - ?n < length Y" using that by simp
    then have "Y ! (i - ?n) \<in> set Y" by simp
    from size_distribution_bounds(2,3) [OF wfY this] show ?thesis
      by (simp add: aps_eq [OF n that])
  qed
  have l_le: "l \<le> dpes_lower (?F ! j)" if "?n \<le> j" "j < length ?F" for j
  proof -
    have "?F ! j \<in> set ?F" using that(2) by (rule nth_mem)
    then have "?F ! j \<in> set (filter (\<lambda>b. flag b = Aps) ?F)"
      using aps_flag [OF that] unfolding set_filter by blast
    from py_min_le [OF l this] show ?thesis .
  qed
  have le_u: "dpes_upper (?F ! k) \<le> u" if "k < ?n" for k
  proof -
    have "k < length ?F" using that by simp
    then have "?F ! k \<in> set ?F" by (rule nth_mem)
    then have "?F ! k \<in> set (filter (\<lambda>b. flag b = Smps) ?F)"
      using smps_flag [OF that] unfolding set_filter by blast
    from py_max_ge [OF u this] show ?thesis .
  qed
  have lenT: "length T' = length ?F" using merge_loop_frame [OF loop, of 0] by simp
  have dropped: "i \<in> set (map fst S) \<longleftrightarrow> i < ?n \<and> l < dpes_upper (?F ! i)"
    if "i < length ?F" for i
  proof -
    have "i \<in> set (map fst S) \<longleftrightarrow> (\<exists>g. (i, g) \<in> set S)" by force
    also have "\<dots> \<longleftrightarrow> flag (?F ! i) = Smps \<and> l < dpes_upper (?F ! i)"
      using that by (simp add: in_S)
    also have "flag (?F ! i) = Smps \<longleftrightarrow> i < ?n"
    proof (cases "i < ?n")
      case True
      then show ?thesis using smps_flag [OF True] by blast
    next
      case False
      then have "?n \<le> i" by simp
      from aps_flag [OF this that] have "flag (?F ! i) \<noteq> Smps" by simp
      with False show ?thesis by blast
    qed
    finally show ?thesis .
  qed
  \<comment> \<open>what the loop leaves of the diameters\<close>
  have smps_dpes: "dpes (T' ! i) = dpes (?F ! i)" if i: "i < ?n" for i
  proof -
    have len: "i < length ?F" using i by simp
    have no: "(i, a) \<notin> set A" for a using smps_flag [OF i] by (auto simp: in_A)
    from merge_loop_dpes [OF loop len] show ?thesis
    proof (elim disjE exE conjE)
      fix a assume "(i, a) \<in> set A"
      with no show ?thesis by simp
    next
      fix g a assume "merge_selection A g = [(i, a)]"
      then have "(i, a) \<in> set A" using merge_selection_member [of "(i, a)" A g] by simp
      with no show ?thesis by simp
    qed
  qed
  have aps_dpes: "dpes (T' ! j) = dpes (?F ! j)
      \<or> (\<exists>k. k < ?n \<and> l < dpes_upper (?F ! k) \<and> is_left_edge A (?F ! k)
              \<and> filter (\<lambda>a. dpes_lower (snd a) < dpes_upper (?F ! k)) A = [(j, ?F ! j)]
              \<and> dpes (T' ! j) = (dpes_lower (?F ! k) + dpes_upper (?F ! j)) / 2)"
    if j: "j < length ?F" for j
  proof -
    from merge_loop_dpes [OF loop j] show ?thesis
    proof (elim disjE exE conjE)
      assume "dpes (T' ! j) = dpes (?F ! j)"
      then show ?thesis by simp
    next
      fix a assume "(j, a) \<in> set A" "dpes (T' ! j) = dpes a"
      then show ?thesis by (simp add: in_A)
    next
      fix g a assume g: "g \<in> set (map snd S)" and le: "is_left_edge A g"
        and sel: "merge_selection A g = [(j, a)]"
        and d: "dpes (T' ! j) = (dpes_lower g + dpes_upper a) / 2"
      from g obtain k where kg: "(k, g) \<in> set S" by auto
      then have k: "k < length ?F" "g = ?F ! k" "flag g = Smps" "l < dpes_upper g"
        unfolding in_S by blast+
      have kn: "k < ?n"
      proof (rule ccontr)
        assume "\<not> k < ?n"
        then have "?n \<le> k" by simp
        from aps_flag [OF this k(1)] k(2,3) show False by simp
      qed
      have "(j, a) \<in> set A" using merge_selection_member [of "(j, a)" A g] sel by simp
      then have a: "a = ?F ! j" by (simp add: in_A)
      have "filter (\<lambda>a. dpes_lower (snd a) < dpes_upper g) A = [(j, a)]"
        by (rule left_edge_selection_filter [OF le sel])
      then show ?thesis using kn k le d a by blast
    qed
  qed
  \<comment> \<open>the rows that stay are in ascending order of diameter as they stand\<close>
  have key: "dpes (T' ! i) < dpes (T' ! j)"
    if ij: "i < j" and j: "j < length ?F"
      and ki: "i \<notin> set (map fst S)" and kj: "j \<notin> set (map fst S)" for i j
  proof -
    have i: "i < length ?F" using ij j by simp
    have bi: "dpes_lower (?F ! i) < dpes (?F ! i)" "dpes (?F ! i) < dpes_upper (?F ! i)"
      using bounds [OF i] by simp_all
    have bj: "dpes_lower (?F ! j) < dpes (?F ! j)" "dpes (?F ! j) < dpes_upper (?F ! j)"
      using bounds [OF j] by simp_all
    show ?thesis
    proof (cases "j < ?n")
      case True
      then have "i < ?n" using ij by simp
      have "dpes_upper (X ! i) \<le> dpes_lower (X ! j)"
        by (rule size_distribution_nth [OF wfX ij True])
      then have "dpes_upper (?F ! i) \<le> dpes_lower (?F ! j)"
        by (simp add: smps_eq [OF True] smps_eq [OF \<open>i < ?n\<close>])
      then show ?thesis
        using smps_dpes [OF True] smps_dpes [OF \<open>i < ?n\<close>] bi bj by simp
    next
      case False
      then have nj: "?n \<le> j" by simp
      have lj: "l \<le> dpes_lower (?F ! j)" by (rule l_le [OF nj j])
      show ?thesis
      proof (cases "i < ?n")
        case True
        have stay: "dpes_upper (?F ! i) \<le> l" using ki dropped [OF i] True by simp
        from aps_dpes [OF j] show ?thesis
        proof (elim disjE exE conjE)
          assume "dpes (T' ! j) = dpes (?F ! j)"
          then show ?thesis using smps_dpes [OF True] bi bj stay lj by simp
        next
          fix k assume k: "k < ?n" "l < dpes_upper (?F ! k)" and le: "is_left_edge A (?F ! k)"
            and sel: "filter (\<lambda>a. dpes_lower (snd a) < dpes_upper (?F ! k)) A = [(j, ?F ! j)]"
            and d: "dpes (T' ! j) = (dpes_lower (?F ! k) + dpes_upper (?F ! j)) / 2"
          have "(j, ?F ! j) \<in> set (filter (\<lambda>a. dpes_lower (snd a) < dpes_upper (?F ! k)) A)"
            by (simp only: sel list.set_intros)
          then have jA: "(j, ?F ! j) \<in> set A" by simp
          have below: "dpes_lower (?F ! k) < dpes_lower (?F ! j)"
            by (rule left_edge_below [OF le jA])
          have "i < k"
          proof (rule ccontr)
            assume "\<not> i < k"
            then have "k < i \<or> k = i" by auto
            then show False
            proof
              assume "k = i"
              with k(2) stay show False by simp
            next
              assume "k < i"
              from size_distribution_nth [OF wfX this True]
              have "dpes_upper (?F ! k) \<le> dpes_lower (?F ! i)"
                by (simp add: smps_eq [OF True] smps_eq [OF k(1)])
              with k(2) stay bi show False by simp
            qed
          qed
          from size_distribution_nth [OF wfX this k(1)]
          have "dpes_upper (?F ! i) \<le> dpes_lower (?F ! k)"
            by (simp add: smps_eq [OF True] smps_eq [OF k(1)])
          then show ?thesis using smps_dpes [OF True] d bi bj below by simp
        qed
      next
        case False
        then have ni: "?n \<le> i" by simp
        have "i - ?n < j - ?n" using ij ni by simp
        moreover have "j - ?n < length Y" using j nj by simp
        ultimately have "dpes_upper (Y ! (i - ?n)) \<le> dpes_lower (Y ! (j - ?n))"
          by (rule size_distribution_nth [OF wfY])
        then have step: "dpes_upper (?F ! i) \<le> dpes_lower (?F ! j)"
          by (simp add: aps_eq [OF ni i] aps_eq [OF nj j])
        have upper_i: "dpes (T' ! i) < dpes_upper (?F ! i)"
          using aps_dpes [OF i]
        proof (elim disjE exE conjE)
          assume "dpes (T' ! i) = dpes (?F ! i)"
          then show ?thesis using bi by simp
        next
          fix k assume le: "is_left_edge A (?F ! k)"
            and sel: "filter (\<lambda>a. dpes_lower (snd a) < dpes_upper (?F ! k)) A = [(i, ?F ! i)]"
            and d: "dpes (T' ! i) = (dpes_lower (?F ! k) + dpes_upper (?F ! i)) / 2"
          have "(i, ?F ! i) \<in> set (filter (\<lambda>a. dpes_lower (snd a) < dpes_upper (?F ! k)) A)"
            by (simp only: sel list.set_intros)
          then have "(i, ?F ! i) \<in> set A" by simp
          from left_edge_below [OF le this] show ?thesis using d bi by simp
        qed
        have "dpes (T' ! j) = dpes (?F ! j)"
          using aps_dpes [OF j]
        proof (elim disjE exE conjE)
          assume "dpes (T' ! j) = dpes (?F ! j)"
          then show ?thesis .
        next
          fix k assume k: "k < ?n"
            and sel: "filter (\<lambda>a. dpes_lower (snd a) < dpes_upper (?F ! k)) A = [(j, ?F ! j)]"
          have "(j, ?F ! j) \<in> set (filter (\<lambda>a. dpes_lower (snd a) < dpes_upper (?F ! k)) A)"
            by (simp only: sel list.set_intros)
          then have reach: "dpes_lower (?F ! j) < dpes_upper (?F ! k)" by simp
          then have "dpes_lower (?F ! i) < dpes_upper (?F ! k)" using step bi by simp
          moreover have "dpes_lower (?F ! i) < u" using calculation le_u [OF k] by simp
          ultimately have "(i, ?F ! i) \<in> set (filter (\<lambda>a. dpes_lower (snd a) < dpes_upper (?F ! k)) A)"
            using aps_flag [OF ni i] i by (simp add: in_A)
          then have "(i, ?F ! i) = (j, ?F ! j)" by (simp only: sel set_simps singleton_iff empty_iff)
          with ij show ?thesis by simp
        qed
        then show ?thesis using upper_i step bj by simp
      qed
    qed
  qed
  let ?keep = "filter (\<lambda>(i, b). i \<notin> set (map fst S)) (enumerate 0 T')"
  have "sorted_wrt (\<lambda>p q. fst p < fst q) ?keep"
    by (rule sorted_wrt_filter [OF enumerate_fst_sorted])
  then have "sorted_wrt (\<lambda>p q. dpes (snd p) < dpes (snd q)) ?keep"
  proof (rule sorted_wrt_mono_rel [rotated])
    fix p q assume p: "p \<in> set ?keep" and q: "q \<in> set ?keep" and pq: "fst p < fst q"
    obtain pi pb where pp: "p = (pi, pb)" by (cases p)
    obtain qi qb where qq: "q = (qi, qb)" by (cases q)
    from p have p': "pi \<notin> set (map fst S)" "pb = T' ! pi"
      unfolding pp by (simp_all add: in_set_enumerate_eq)
    from q have q': "qi \<notin> set (map fst S)" "qb = T' ! qi" "qi < length ?F"
      unfolding qq using lenT by (simp_all add: in_set_enumerate_eq)
    from pq have pq': "pi < qi" by (simp add: pp qq)
    show "dpes (snd p) < dpes (snd q)"
      using key [OF pq' q'(3) p'(1) q'(1)] p'(2) q'(2) by (simp add: pp qq)
  qed
  then have strict: "sorted_wrt (<) (map dpes (drop_labels (map fst S) T'))"
    by (simp add: drop_labels_def sorted_wrt_map)
  then have "sorted (map dpes (drop_labels (map fst S) T'))"
    by (rule strict_sorted_imp_sorted)
  then have "sort_key dpes (drop_labels (map fst S) T') = drop_labels (map fst S) T'"
    by (rule sort_key_id_if_sorted)
  with strict show ?thesis by (simp add: M')
qed

subsection \<open>The diameters of the bins laid over a gap\<close>

lemma gap_grid_centres:
  assumes u: "0 < u" and ul: "u < l"
  shows "sorted_wrt (<) (map2 (\<lambda>a b. (a + b) / 2) (logspace (log10 u) (log10 l) n)
                          (drop 1 (logspace (log10 u) (log10 l) n) @ [l]))
         \<and> (\<forall>c\<in>set (map2 (\<lambda>a b. (a + b) / 2) (logspace (log10 u) (log10 l) n)
                          (drop 1 (logspace (log10 u) (log10 l) n) @ [l])). u < c \<and> c < l)"
proof (cases "n = 0")
  case True
  then show ?thesis by (simp add: logspace_def)
next
  case False
  then have n: "0 < n" by simp
  define s where "s = log10 u"
  define e where "e = log10 l"
  define d where "d = (e - s) / real n"
  define E where "E j = 10 powr (real j * d + s)" for j
  let ?L = "logspace (log10 u) (log10 l) n"
  let ?U = "drop 1 ?L @ [l]"
  let ?C = "map2 (\<lambda>a b. (a + b) / 2) ?L ?U"
  have l: "0 < l" using u ul by simp
  have "s < e" unfolding s_def e_def log10_def using u ul by simp
  then have d: "0 < d" unfolding d_def using n by simp
  have mono: "E i < E j" if "i < j" for i j
  proof -
    have "real i * d < real j * d" using that d by simp
    then show ?thesis unfolding E_def by simp
  qed
  have mono_le: "E i \<le> E j" if "i \<le> j" for i j
    using mono [of i j] that by (cases "i = j") (simp_all add: less_imp_le)
  have E0: "E 0 = u" unfolding E_def s_def log10_def using u by simp
  have "real n * d + s = e" unfolding d_def using n by simp
  then have En: "E n = l" unfolding E_def e_def log10_def using l by simp
  have L: "?L = map E [0..<n]"
    by (simp add: logspace_def E_def [abs_def] d_def s_def e_def)
  have lenL: "length ?L = n" by (simp add: logspace_def)
  have lenU: "length ?U = n" using n by (simp add: lenL)
  have Lj: "?L ! j = E j" if "j < n" for j using that by (simp add: L)
  have lenD: "length (drop 1 ?L) = n - 1" by (simp add: lenL)
  have Uj: "?U ! j = E (Suc j)" if "j < n" for j
  proof (cases "Suc j < n")
    case True
    then have "j < length (drop 1 ?L)" using lenD by simp
    then have "?U ! j = drop 1 ?L ! j" by (simp only: nth_append if_True)
    also have "\<dots> = ?L ! (Suc j)" using True lenL by simp
    finally show ?thesis using True by (simp add: Lj)
  next
    case False
    then have jn: "Suc j = n" using that by simp
    then have "j = length (drop 1 ?L)" using lenD by simp
    then have "?U ! j = l" by (simp only: nth_append_length)
    then show ?thesis using En jn by simp
  qed
  have lenC: "length ?C = n" by (simp only: length_map length_zip lenL lenU min.idem)
  have Cj: "?C ! j = (E j + E (Suc j)) / 2" if "j < n" for j
  proof -
    have "?C ! j = (?L ! j + ?U ! j) / 2"
      using that lenL lenU by (simp del: One_nat_def)
    then show ?thesis by (simp only: Lj [OF that] Uj [OF that])
  qed
  have between: "E j < ?C ! j \<and> ?C ! j < E (Suc j)" if "j < n" for j
    using mono [of j "Suc j"] Cj [OF that] by simp
  have "sorted_wrt (<) ?C"
    unfolding sorted_wrt_iff_nth_less
  proof (intro allI impI)
    fix i j assume ij: "i < j" and j: "j < length ?C"
    then have jn: "j < n" and "i < n" using lenC by simp_all
    have "?C ! i < E (Suc i)" using between [OF \<open>i < n\<close>] by simp
    also have "E (Suc i) \<le> E j" using ij by (intro mono_le) simp
    also have "E j < ?C ! j" using between [OF jn] by simp
    finally show "?C ! i < ?C ! j" .
  qed
  moreover have "\<forall>c\<in>set ?C. u < c \<and> c < l"
  proof
    fix c assume "c \<in> set ?C"
    then obtain j where j: "j < length ?C" and c: "c = ?C ! j"
      by (auto simp: in_set_conv_nth)
    then have jn: "j < n" using lenC by simp
    have "u \<le> E j" using mono_le [of 0 j] E0 by simp
    moreover have "E (Suc j) \<le> l" using mono_le [of "Suc j" n] jn En by simp
    ultimately show "u < c \<and> c < l" using between [OF jn] c by simp
  qed
  ultimately show ?thesis by blast
qed

lemma dpes_new_bins:
  "map dpes (map2 (\<lambda>l u. \<lparr>flag = Interpolated, dpes = (l + u) / 2, dpes_lower = l,
                            dpes_upper = u, dn = None, dndlogd = None\<rparr>) lower upper)
   = map2 (\<lambda>a b. (a + b) / 2) lower upper"
  by (induction lower upper rule: list_induct2') simp_all

lemma dpes_recount: "map dpes (map recount Z) = map dpes Z"
  by (induction Z) (simp_all add: recount_def)

lemma interpolate_gap_branch_dpes:
  assumes run: "interpolate_gap_branch sd_smps sd_aps T = Inr T'"
    and u: "py_max (map dpes_upper sd_smps) = Inr u"
    and l: "py_min (map dpes_lower sd_aps) = Inr l"
  shows "\<exists>n I. map dpes I = map2 (\<lambda>a b. (a + b) / 2) (logspace (log10 u) (log10 l) n)
                              (drop 1 (logspace (log10 u) (log10 l) n) @ [l])
             \<and> map dpes T' = map dpes (sort_key dpes (T @ I))"
proof -
  from run obtain lower upper where grid:
    "get_bin_boundaries_in_interval u l (get_interpol_resolution sd_smps sd_aps) = Inr (lower, upper)"
    by (auto simp: interpolate_gap_branch_def u l split: sum.splits)
  then obtain n where lower: "lower = logspace (log10 u) (log10 l) n"
    and upper: "upper = drop 1 (logspace (log10 u) (log10 l) n) @ [l]"
    by (auto simp: get_bin_boundaries_in_interval_def Let_def split: option.splits if_splits)
  let ?I = "map2 (\<lambda>l u. \<lparr>flag = Interpolated, dpes = (l + u) / 2, dpes_lower = l,
                            dpes_upper = u, dn = None, dndlogd = None\<rparr>) lower upper"
  from run obtain Z where Z: "interpolate_dndlogd_gap (sort_key dpes (T @ ?I)) 3 = Inr Z"
    and T': "T' = map recount Z"
    by (auto simp: interpolate_gap_branch_def u l grid Let_def recount_def [abs_def]
          split: sum.splits if_splits)
  have "map dpes T' = map dpes (sort_key dpes (T @ ?I))"
    by (simp only: T' dpes_recount interpolate_dndlogd_gap_dpes [OF Z])
  moreover have "map dpes ?I = map2 (\<lambda>a b. (a + b) / 2) (logspace (log10 u) (log10 l) n)
                              (drop 1 (logspace (log10 u) (log10 l) n) @ [l])"
    by (simp only: dpes_new_bins lower upper)
  ultimately show ?thesis by blast
qed

lemma recompute_modified_instruments:
  "\<forall>r\<in>set T. flag r = Smps \<or> flag r = Aps \<Longrightarrow> recompute_modified T = T"
  by (induction T) (auto simp: recompute_modified_def)

lemma combine_gap_branch_result:
  assumes run: "combine_SMPS_APS_sd sd_aps sd_smps merge_overlap True = Inr out"
    and u: "py_max (map dpes_upper sd_smps) = Inr u"
    and l: "py_min (map dpes_lower sd_aps) = Inr l"
    and gap: "u < l"
  shows "\<exists>T. interpolate_gap_branch (map (\<lambda>r. r\<lparr>flag := Smps\<rparr>) sd_smps)
                (map (\<lambda>r. r\<lparr>flag := Aps\<rparr>) sd_aps)
                (map (\<lambda>r. r\<lparr>flag := Smps\<rparr>) sd_smps @ map (\<lambda>r. r\<lparr>flag := Aps\<rparr>) sd_aps) = Inr T
           \<and> out = recompute_modified T"
proof -
  have u': "py_max (map (dpes_upper \<circ> flag_update (\<lambda>_. Smps)) sd_smps) = Inr u"
    using u by (simp add: comp_def)
  have l': "py_min (map (dpes_lower \<circ> flag_update (\<lambda>_. Aps)) sd_aps) = Inr l"
    using l by (simp add: comp_def)
  from gap have "\<not> l < u" by simp
  with run gap show ?thesis
    by (simp add: combine_SMPS_APS_sd_def Let_def u' l' split: sum.splits)
qed

lemma combine_no_branch_result:
  assumes run: "combine_SMPS_APS_sd sd_aps sd_smps merge_overlap interpolate_gap = Inr out"
    and u: "py_max (map dpes_upper sd_smps) = Inr u"
    and l: "py_min (map dpes_lower sd_aps) = Inr l"
    and no: "\<not> (merge_overlap \<and> l < u)" "\<not> (interpolate_gap \<and> u < l)"
  shows "out = map (\<lambda>r. r\<lparr>flag := Smps\<rparr>) sd_smps @ map (\<lambda>r. r\<lparr>flag := Aps\<rparr>) sd_aps"
proof -
  let ?F = "map (\<lambda>r. r\<lparr>flag := Smps\<rparr>) sd_smps @ map (\<lambda>r. r\<lparr>flag := Aps\<rparr>) sd_aps"
  have u': "py_max (map (dpes_upper \<circ> flag_update (\<lambda>_. Smps)) sd_smps) = Inr u"
    using u by (simp add: comp_def)
  have l': "py_min (map (dpes_lower \<circ> flag_update (\<lambda>_. Aps)) sd_aps) = Inr l"
    using l by (simp add: comp_def)
  from run no have "out = recompute_modified ?F"
    by (simp add: combine_SMPS_APS_sd_def Let_def u' l' split: if_splits)
  moreover have "recompute_modified ?F = ?F"
    by (rule recompute_modified_instruments) auto
  ultimately show ?thesis by simp
qed

subsection \<open>The order of the result\<close>

text \<open>
  C9, as the code has it. The frame is sorted by \<open>dpes\<close> inside the two branches
  (lines 130 and 233) and nowhere else. For two distributions of the data model, each
  in ascending order with bins that do not reach into one another, the result of a
  successful combination is strictly ascending by \<open>dpes\<close>, no two rows on one diameter,
  when the overlap is merged, when the gap is interpolated, and when the two ranges do
  not overlap at all. When neither branch runs, the result is the SMPS rows followed by
  the APS rows, in the order they came: with overlapping ranges and \<open>merge_overlap\<close>
  off, nothing puts them in order.
\<close>

theorem combine_strictly_ascending:
  assumes result: "combine_SMPS_APS_sd sd_aps sd_smps merge_overlap interpolate_gap = Inr out"
    and smps: "size_distribution sd_smps" and aps: "size_distribution sd_aps"
    and ranges: "py_max (map dpes_upper sd_smps) = Inr smps_upper_max"
                "py_min (map dpes_lower sd_aps) = Inr aps_lower_min"
  shows "(merge_overlap \<or> smps_upper_max \<le> aps_lower_min \<longrightarrow> sorted_wrt (<) (map dpes out))
         \<and> (\<not> (merge_overlap \<and> aps_lower_min < smps_upper_max)
            \<and> \<not> (interpolate_gap \<and> smps_upper_max < aps_lower_min) \<longrightarrow>
              out = map (\<lambda>r. r\<lparr>flag := Smps\<rparr>) sd_smps @ map (\<lambda>r. r\<lparr>flag := Aps\<rparr>) sd_aps)"
proof -
  let ?X = "map (\<lambda>r. r\<lparr>flag := Smps\<rparr>) sd_smps" and ?Y = "map (\<lambda>r. r\<lparr>flag := Aps\<rparr>) sd_aps"
  let ?u = smps_upper_max and ?l = aps_lower_min
  have wfX: "size_distribution ?X" and wfY: "size_distribution ?Y"
    using smps aps by (simp_all add: size_distribution_flag)
  have strictX: "sorted_wrt (<) (map dpes ?X)" by (rule size_distribution_strict [OF wfX])
  have strictY: "sorted_wrt (<) (map dpes ?Y)" by (rule size_distribution_strict [OF wfY])
  have belowX: "dpes x < ?u" if "x \<in> set ?X" for x
  proof -
    from that obtain r where r: "r \<in> set sd_smps" and x: "x = r\<lparr>flag := Smps\<rparr>" by auto
    have "dpes r < dpes_upper r" by (rule size_distribution_bounds(3) [OF smps r])
    moreover have "dpes_upper r \<le> ?u" by (rule py_max_ge [OF ranges(1) r])
    ultimately show ?thesis using x by simp
  qed
  have aboveY: "?l < dpes y" if "y \<in> set ?Y" for y
  proof -
    from that obtain r where r: "r \<in> set sd_aps" and y: "y = r\<lparr>flag := Aps\<rparr>" by auto
    have "dpes_lower r < dpes r" by (rule size_distribution_bounds(2) [OF aps r])
    moreover have "?l \<le> dpes_lower r" by (rule py_min_le [OF ranges(2) r])
    ultimately show ?thesis using y by simp
  qed
  have merged: "sorted_wrt (<) (map dpes out)" if b: "merge_overlap" "?l < ?u"
  proof -
    from result b(1) have "combine_SMPS_APS_sd sd_aps sd_smps True interpolate_gap = Inr out"
      by simp
    from combine_merge_branch_result [OF this ranges b(2)]
    obtain M where M: "merge_overlap_branch (?X @ ?Y) = Inr M" and out: "out = recompute_modified M"
      by blast
    have "sorted_wrt (<) (map dpes M)"
      by (rule merge_overlap_branch_strict [OF _ _ wfX wfY M]) auto
    then show ?thesis by (simp add: out dpes_recompute_modified)
  qed
  have filled: "sorted_wrt (<) (map dpes out)" if b: "interpolate_gap" "?u < ?l"
  proof -
    from result b(1) have "combine_SMPS_APS_sd sd_aps sd_smps merge_overlap True = Inr out"
      by simp
    from combine_gap_branch_result [OF this ranges b(2)]
    obtain T where T: "interpolate_gap_branch ?X ?Y (?X @ ?Y) = Inr T"
      and out: "out = recompute_modified T" by blast
    have u': "py_max (map dpes_upper ?X) = Inr ?u" using ranges(1) by (simp add: comp_def)
    have l': "py_min (map dpes_lower ?Y) = Inr ?l" using ranges(2) by (simp add: comp_def)
    from interpolate_gap_branch_dpes [OF T u' l']
    obtain n I where I: "map dpes I = map2 (\<lambda>a b. (a + b) / 2) (logspace (log10 ?u) (log10 ?l) n)
                              (drop 1 (logspace (log10 ?u) (log10 ?l) n) @ [?l])"
      and dT: "map dpes T = map dpes (sort_key dpes ((?X @ ?Y) @ I))" by blast
    have "sd_smps \<noteq> []" using ranges(1) by (auto simp: py_max_def)
    then obtain r where r: "r \<in> set sd_smps" by (cases sd_smps) auto
    have "0 < dpes_upper r" using size_distribution_bounds [OF smps r] by simp
    moreover have "dpes_upper r \<le> ?u" by (rule py_max_ge [OF ranges(1) r])
    ultimately have pos: "0 < ?u" by simp
    have grid: "sorted_wrt (<) (map dpes I) \<and> (\<forall>c\<in>set (map dpes I). ?u < c \<and> c < ?l)"
      unfolding I by (rule gap_grid_centres [OF pos b(2)])
    then have strictI: "sorted_wrt (<) (map dpes I)"
      and betweenI: "\<forall>c\<in>set (map dpes I). ?u < c \<and> c < ?l"
      by blast+
    have dX: "distinct (map dpes ?X)" and dY: "distinct (map dpes ?Y)" and dI: "distinct (map dpes I)"
      using strictX strictY strictI by (simp_all only: strict_sorted_iff)
    have XY: "dpes x \<noteq> dpes y" if "x \<in> set ?X" "y \<in> set ?Y" for x y
      using belowX [OF that(1)] aboveY [OF that(2)] b(2) by simp
    have XI: "dpes x \<noteq> dpes i" if "x \<in> set ?X" "i \<in> set I" for x i
    proof -
      have "dpes i \<in> set (map dpes I)" using that(2) by simp
      with betweenI have "?u < dpes i" by blast
      then show ?thesis using belowX [OF that(1)] by simp
    qed
    have YI: "dpes y \<noteq> dpes i" if "y \<in> set ?Y" "i \<in> set I" for y i
    proof -
      have "dpes i \<in> set (map dpes I)" using that(2) by simp
      with betweenI have "dpes i < ?l" by blast
      then show ?thesis using aboveY [OF that(1)] by simp
    qed
    have "set (map dpes ?X) \<inter> set (map dpes ?Y) = {}"
      using XY by (simp only: set_map) blast
    moreover have "set (map dpes ?X) \<inter> set (map dpes I) = {}"
      using XI by (simp only: set_map) blast
    moreover have "set (map dpes ?Y) \<inter> set (map dpes I) = {}"
      using YI by (simp only: set_map) blast
    ultimately have "distinct (map dpes ?X @ map dpes ?Y @ map dpes I)"
      using dX dY dI by (simp only: distinct_append set_append) blast
    then have "distinct (map dpes ((?X @ ?Y) @ I))" by (simp only: map_append append_assoc)
    then have "sorted_wrt (<) (map dpes (sort_key dpes ((?X @ ?Y) @ I)))"
      by (rule strict_sort_key)
    then show ?thesis by (simp only: out dpes_recompute_modified dT)
  qed
  have passed: "out = ?X @ ?Y"
    if "\<not> (merge_overlap \<and> ?l < ?u)" "\<not> (interpolate_gap \<and> ?u < ?l)"
    by (rule combine_no_branch_result [OF result ranges that])
  have apart: "sorted_wrt (<) (map dpes (?X @ ?Y))" if "?u \<le> ?l"
  proof -
    have "dpes x < dpes y" if "x \<in> set ?X" "y \<in> set ?Y" for x y
      using belowX [OF that(1)] aboveY [OF that(2)] \<open>?u \<le> ?l\<close> by simp
    then have "\<forall>a\<in>set (map dpes ?X). \<forall>b\<in>set (map dpes ?Y). a < b"
      by (simp only: set_map) blast
    then show ?thesis
      using strictX strictY by (simp only: map_append sorted_wrt_append simp_thms)
  qed
  have first: "sorted_wrt (<) (map dpes out)" if c: "merge_overlap \<or> ?u \<le> ?l"
  proof (cases "?l < ?u")
    case True
    with c have "merge_overlap" by simp
    then show ?thesis using True by (rule merged)
  next
    case False
    then have le: "?u \<le> ?l" by simp
    show ?thesis
    proof (cases "interpolate_gap \<and> ?u < ?l")
      case True
      then show ?thesis using filled by blast
    next
      case no: False
      have "out = ?X @ ?Y" using passed False no by blast
      then show ?thesis using apart [OF le] by simp
    qed
  qed
  from first passed show ?thesis by blast
qed

theorem combine_strictly_ascending_witness:
  "combine_SMPS_APS_sd overlap_example_aps overlap_example_smps True False
   = Inr [mk_bin Smps 10 1 100 4 2, mk_bin Merged 10000 1000 100000 (64 / 11) (32 / 11),
          mk_bin Merged 1000000 100000 10000000 (166 / 11) (83 / 11)]
   \<and> sorted_wrt (<) [10, 10000, 1000000 :: real]"
proof -
  let ?out = "[mk_bin Smps 10 1 100 4 2, mk_bin Merged 10000 1000 100000 (64 / 11) (32 / 11),
          mk_bin Merged 1000000 100000 10000000 (166 / 11) (83 / 11)]"
  have result: "combine_SMPS_APS_sd overlap_example_aps overlap_example_smps True False = Inr ?out"
    by (simp add: overlap_example_aps_def overlap_example_smps_def combine_eval merge_eval
          log10_values)
  have smps: "size_distribution overlap_example_smps"
    by (simp add: size_distribution_def overlap_example_smps_def mk_bin_def)
  have aps: "size_distribution overlap_example_aps"
    by (simp add: size_distribution_def overlap_example_aps_def mk_bin_def)
  have ranges: "py_max (map dpes_upper overlap_example_smps) = Inr 1000000"
    "py_min (map dpes_lower overlap_example_aps) = Inr 1000"
    by (simp_all add: py_max_def py_min_def overlap_example_smps_def overlap_example_aps_def
          mk_bin_def)
  show ?thesis
    using combine_strictly_ascending [OF result smps aps ranges] result
    by (simp add: mk_bin_def)
qed

text \<open>
  The claim as stated fails: with \<open>merge_overlap\<close> off the same two distributions come
  back one after the other, the third SMPS bin before the first APS bin of smaller
  diameter.
\<close>

theorem combine_order_counterexample:
  "map_sum id (map dpes)
     (combine_SMPS_APS_sd overlap_example_aps overlap_example_smps False True)
   = Inr [10, 1000, 100000, 10000, 1000000]
   \<and> \<not> sorted_wrt (<) [10, 1000, 100000, 10000, 1000000 :: real]"
  by (simp add: overlap_example_aps_def overlap_example_smps_def combine_eval merge_eval)

subsection \<open>The gap example, evaluated\<close>

lemma combine_gap_example:
  "combine_SMPS_APS_sd gap_example_aps gap_example_smps merge_overlap True =
   Inr [mk_bin Smps 1 (1/10) 10 6 3, mk_bin Smps 100 10 1000 8 4,
      \<lparr>flag = Interpolated, dpes = 5500, dpes_lower = 1000, dpes_upper = 10000, dn = Some (267/74),
        dndlogd = Some (267/74)\<rparr>,
      mk_bin Aps 100000 10000 1000000 10 5, mk_bin Aps 10000000 1000000 100000000 12 6]"
  by (simp add: gap_example_smps_def gap_example_aps_def gap_eval merge_eval combine_eval)

lemma interpolate_gap_example:
  "interpolate_dndlogd_gap gap_example_frame 3 =
   Inr [mk_bin Smps 1 (1/10) 10 7 3, mk_bin Smps 100 10 1000 8 4,
      \<lparr>flag = Interpolated, dpes = 5500, dpes_lower = 1000, dpes_upper = 10000, dn = None,
        dndlogd = Some (267/74)\<rparr>,
      mk_bin Aps 100000 10000 1000000 10 5, mk_bin Aps 10000000 1000000 100000000 12 6]"
  by (simp add: gap_example_frame_def gap_eval merge_eval enumerate_eq_zip)

lemma log10_5500: "3 < log10 5500"
proof -
  have a: "log10 1000 < log10 5500"
    unfolding log10_def by (subst log_less_cancel_iff) simp_all
  show ?thesis using a unfolding log10_values(4) .
qed

subsection \<open>The densities written into the gap\<close>

text \<open>
  C4, as the code has it. The slice is interpolated with \<^verbatim>\<open>method='index'\<close> over the
  index \<open>dpes\<close>: the diameter itself, not its logarithm. When every row between the two
  edge bins awaits a density and the frame is ascending by \<open>dpes\<close> with the edge bins on
  different diameters, the density written to a row \<open>i\<close> between them lies on the
  straight line over \<open>dpes\<close> from the anchor \<open>a\<close> at the diameter of the lower edge bin
  to the anchor \<open>b\<close> at the diameter of the upper one.
\<close>

theorem interpolate_dndlogd_gap_linear_in_dpes:
  assumes out: "interpolate_dndlogd_gap sd_gapped w = Inr out"
    and lo: "edge_bin_min_idx sd_gapped = Inr lo" and hi: "edge_bin_max_idx sd_gapped = Inr hi"
    and anchors: "edge_bin_min_dndlogd_avg sd_gapped lo w = Some a"
                 "edge_bin_max_dndlogd_avg sd_gapped hi w = Some b"
    and gap: "\<forall>j. lo < j \<and> j < hi \<longrightarrow> dndlogd (sd_gapped ! j) = None"
    and sorted: "sorted (map dpes sd_gapped)"
    and strict: "dpes (sd_gapped ! lo) < dpes (sd_gapped ! hi)"
    and i: "lo < i" "i < hi"
  shows "dndlogd (out ! i)
         = Some ((b - a) / (dpes (sd_gapped ! hi) - dpes (sd_gapped ! lo))
                   * (dpes (sd_gapped ! i) - dpes (sd_gapped ! lo)) + a)"
proof (rule interpolate_dndlogd_gap_nth [OF out])
  fix lo' hi'
  assume lo': "edge_bin_min_idx sd_gapped = Inr lo'" and hi': "edge_bin_max_idx sd_gapped = Inr hi'"
    and hiT': "hi' < length sd_gapped"
    and rows': "\<And>i. i < length sd_gapped \<Longrightarrow>
       out ! i = (if lo' < i \<and> i < hi'
                then (sd_gapped ! i)\<lparr>dndlogd :=
                       interpolate_index
                         (map (\<lambda>r. (dpes r, dndlogd r)) (gap_with_edges sd_gapped lo' hi' w))
                         ! (i - lo')\<rparr>
                else sd_gapped ! i)"
  let ?T = sd_gapped
  have eq: "lo' = lo" "hi' = hi" using lo lo' hi hi' by simp_all
  have hiT: "hi < length ?T" using hiT' eq by simp
  have lt: "lo < hi" using i by simp
  have iT: "i < length ?T" using i hiT by simp
  let ?mid = "take (hi - lo - 1) (drop (Suc lo) ?T)"
  let ?x0 = "dpes (?T ! lo)" and ?x1 = "dpes (?T ! hi)"
  let ?s = "map (\<lambda>r. (dpes r, dndlogd r)) (gap_with_edges ?T lo hi w)"
  have s: "?s = (?x0, Some a) # map (\<lambda>r. (dpes r, dndlogd r)) ?mid @ [(?x1, Some b)]"
    unfolding gap_with_edges_shape [OF lt hiT] anchors by simp
  have mid: "\<forall>r\<in>set ?mid. dndlogd r = None"
  proof
    fix r assume "r \<in> set ?mid"
    then obtain k where k: "k < length ?mid" and r: "r = ?mid ! k"
      by (auto simp: in_set_conv_nth)
    have klen: "k < hi - lo - 1" using k by simp
    then have "r = ?T ! (Suc lo + k)" using r hiT by simp
    moreover have "lo < Suc lo + k \<and> Suc lo + k < hi" using klen by linarith
    ultimately show "dndlogd r = None" using gap by simp
  qed
  have valid: "sort_key fst [(x, v). (x, Some v) \<leftarrow> ?s] = [(?x0, a), (?x1, b)]"
    unfolding s valid_cells_of_gap [OF mid] using strict by simp
  have first: "length (takeWhile (\<lambda>c. snd c = None) ?s) = 0"
    unfolding s by simp
  have "i - lo < Suc hi - lo" using i by linarith
  then have k: "i - lo < length ?s"
    using hiT by (simp add: length_gap_with_edges loc_slice_nat)
  have "gap_with_edges ?T lo hi w ! (i - lo) = ?T ! i"
    using i hiT by (intro gap_with_edges_interior) simp_all
  then have cell: "?s ! (i - lo) = (dpes (?T ! i), None)"
    using k gap i by simp
  have mono: "?x0 \<le> dpes (?T ! i)" "dpes (?T ! i) \<le> ?x1"
    using sorted i hiT iT by (simp_all add: sorted_iff_nth_mono)
  have "interpolate_index ?s ! (i - lo)
        = Some (np_interp [(?x0, a), (?x1, b)] (dpes (?T ! i)))"
    unfolding interpolate_index_nth [OF k] cell valid first by simp
  also have "np_interp [(?x0, a), (?x1, b)] (dpes (?T ! i))
             = (b - a) / (?x1 - ?x0) * (dpes (?T ! i) - ?x0) + a"
    by (rule np_interp_two [OF strict mono])
  finally show ?thesis
    using rows' [OF iT] i eq by simp
qed

theorem interpolate_dndlogd_gap_linear_in_dpes_witness:
  "interpolate_dndlogd_gap gap_example_frame 3 =
     Inr [mk_bin Smps 1 (1/10) 10 7 3, mk_bin Smps 100 10 1000 8 4,
          \<lparr>flag = Interpolated, dpes = 5500, dpes_lower = 1000, dpes_upper = 10000, dn = None,
           dndlogd = Some (267/74)\<rparr>,
          mk_bin Aps 100000 10000 1000000 10 5, mk_bin Aps 10000000 1000000 100000000 12 6]
   \<and> Some (267 / 74 :: real) = Some ((11 / 2 - 7 / 2) / (100000 - 100) * (5500 - 100) + 7 / 2)"
proof -
  let ?out = "[mk_bin Smps 1 (1/10) 10 7 3, mk_bin Smps 100 10 1000 8 4,
          \<lparr>flag = Interpolated, dpes = 5500, dpes_lower = 1000, dpes_upper = 10000, dn = None,
           dndlogd = Some (267/74)\<rparr>,
          mk_bin Aps 100000 10000 1000000 10 5, mk_bin Aps 10000000 1000000 100000000 12 6]"
  have out: "interpolate_dndlogd_gap gap_example_frame 3 = Inr ?out"
    by (rule interpolate_gap_example)
  have lo: "edge_bin_min_idx gap_example_frame = Inr 1"
    by (simp add: edge_bin_min_idx_def gap_example_frame_def idxmax_def mk_bin_def enumerate_eq_zip upt_rec)
  have hi: "edge_bin_max_idx gap_example_frame = Inr 3"
    by (simp add: edge_bin_max_idx_def gap_example_frame_def idxmin_def mk_bin_def enumerate_eq_zip upt_rec)
  have anchors: "edge_bin_min_dndlogd_avg gap_example_frame 1 3 = Some (7 / 2)"
    "edge_bin_max_dndlogd_avg gap_example_frame 3 3 = Some (11 / 2)"
    by (simp_all add: edge_bin_min_dndlogd_avg_def edge_bin_max_dndlogd_avg_def
          gap_example_frame_def loc_slice_def mean_skipna_def mk_bin_def)
  have gap: "\<forall>j. 1 < j \<and> j < 3 \<longrightarrow> dndlogd (gap_example_frame ! j) = None"
  proof (intro allI impI)
    fix j :: nat assume "1 < j \<and> j < 3"
    then have "j = 2" by linarith
    then show "dndlogd (gap_example_frame ! j) = None"
      by (simp add: gap_example_frame_def)
  qed
  have sorted: "sorted (map dpes gap_example_frame)"
    by (simp add: gap_example_frame_def mk_bin_def)
  have strict: "dpes (gap_example_frame ! 1) < dpes (gap_example_frame ! 3)"
    by (simp add: gap_example_frame_def mk_bin_def)
  have i: "(1::nat) < 2" "(2::nat) < 3" by simp_all
  show ?thesis
    using interpolate_dndlogd_gap_linear_in_dpes [OF out lo hi anchors gap sorted strict i] out
    by (simp add: gap_example_frame_def mk_bin_def)
qed

text \<open>
  The claim as stated fails: for the gap example the combiner gives the new bin at
  diameter 5500 the density 267/74, about 3.61, between the anchors 7/2 at diameter 100
  and 11/2 at diameter 100000; a line over \<open>log10(dpes)\<close> through the same anchors
  passes above 4.16 there.
\<close>

theorem gap_interpolation_log_linear_counterexample:
  "map_sum id (\<lambda>out. dndlogd (out ! 2))
     (combine_SMPS_APS_sd gap_example_aps gap_example_smps True True) = Inr (Some (267 / 74))
   \<and> edge_bin_min_dndlogd_avg gap_example_frame 1 3 = Some (7 / 2)
   \<and> edge_bin_max_dndlogd_avg gap_example_frame 3 3 = Some (11 / 2)
   \<and> 267 / 74 \<noteq> 7 / 2 + (11 / 2 - 7 / 2) * ((log10 5500 - log10 100) / (log10 100000 - log10 100))"
proof -
  have "7 / 2 + (11 / 2 - 7 / 2) * ((log10 5500 - log10 100) / (log10 100000 - log10 100))
        = 7 / 2 + 2 * (log10 5500 - 2) / 3"
    by (simp add: log10_values)
  moreover have "267 / 74 < 7 / 2 + 2 * (log10 5500 - 2) / 3"
    using log10_5500 by simp
  ultimately have "267 / 74 \<noteq> 7 / 2 + (11 / 2 - 7 / 2) * ((log10 5500 - log10 100) / (log10 100000 - log10 100))"
    by linarith
  moreover have "edge_bin_min_dndlogd_avg gap_example_frame 1 3 = Some (7 / 2)"
    by (simp add: edge_bin_min_dndlogd_avg_def gap_example_frame_def loc_slice_def mean_skipna_def mk_bin_def)
  moreover have "edge_bin_max_dndlogd_avg gap_example_frame 3 3 = Some (11 / 2)"
    by (simp add: edge_bin_max_dndlogd_avg_def gap_example_frame_def loc_slice_def mean_skipna_def mk_bin_def)
  ultimately show ?thesis
    by (simp add: combine_gap_example)
qed

subsection \<open>Bins of one decade, evaluated\<close>

lemma log10_shift: "0 < x \<Longrightarrow> log10 (x * 10 ^ n) = log10 x + real n"
  by (simp add: log10_def log_mult)

lemma log10_decades:
  "log10 60 - log10 6 = 1" "log10 600 - log10 60 = 1" "log10 6000 - log10 600 = 1"
  "log10 60000 - log10 6000 = 1" "log10 600000 - log10 60000 = 1"
  "log10 6000000 - log10 600000 = 1" "log10 60000000 - log10 6000000 = 1"
  "log10 3300 - log10 33 = 2" "log10 33000000 - log10 330000 = 2"
  using log10_shift [of 6 1] log10_shift [of 6 2] log10_shift [of 6 3] log10_shift [of 6 4]
    log10_shift [of 6 5] log10_shift [of 6 6] log10_shift [of 6 7]
    log10_shift [of 33 2] log10_shift [of 33 4] log10_shift [of 33 6]
  by simp_all

lemma log10_decades_apart: "log10 3300 \<noteq> log10 33" "log10 33000000 \<noteq> log10 330000"
  using log10_decades(8,9) by auto

lemma ten_powr_log10_6000: "10 powr log10 6000 = 6000"
  by (simp add: log10_def)

lemma calc_bin_boundaries_decade:
  "calc_bin_boundaries 33 1 = (6, 60)" "calc_bin_boundaries 330 1 = (60, 600)"
  "calc_bin_boundaries 3300 1 = (600, 6000)" "calc_bin_boundaries 330000 1 = (60000, 600000)"
  "calc_bin_boundaries 3300000 1 = (600000, 6000000)"
  "calc_bin_boundaries 33000000 1 = (6000000, 60000000)"
  by (simp_all add: calc_bin_boundaries_def powr_minus)

lemma combine_decade_example:
  "combine_SMPS_APS_sd decade_example_aps decade_example_smps merge_overlap True =
   Inr [mk_bin Smps 33 6 60 10 10, mk_bin Smps 330 60 600 20 20, mk_bin Smps 3300 600 6000 30 30,
        mk_bin Interpolated 33000 6000 60000 (250 / 11) (250 / 11),
        mk_bin Aps 330000 60000 600000 40 40, mk_bin Aps 3300000 600000 6000000 50 50,
        mk_bin Aps 33000000 6000000 60000000 60 60]"
  by (simp add: decade_example_smps_def decade_example_aps_def gap_eval merge_eval combine_eval
        log10_decades log10_decades_apart ten_powr_log10_6000)

subsection \<open>The bins of the instruments after the gap is filled\<close>

text \<open>
  C6, as the code has it. Line 134 assigns the whole \<open>dn\<close> column: the count of every
  row of the frame, not only that of the new bins, is computed again as its density times
  its own log-width, whereas the statement of lines 235--238, which computes the
  densities again, goes through a mask of the modified rows. When the gap branch has run
  on distributions whose densities are all numbers, the rows of the two instruments in
  the result are the rows that came in, in ascending \<open>dpes\<close>, each with its flag,
  diameter, boundaries and density as they were, and with the count that line 134
  computed. Over the reals this product is the count a bin came in with whenever that
  count was its density times its log-width; in the doubles of the program
  \<^verbatim>\<open>np.log10\<close> and the product are rounded, and the count of such a bin comes back
  changed in its last places.
\<close>

theorem combine_gap_fill_recounts_every_bin:
  assumes result: "combine_SMPS_APS_sd sd_aps sd_smps merge_overlap True = Inr out"
    and ranges: "py_max (map dpes_upper sd_smps) = Inr smps_upper_max"
                "py_min (map dpes_lower sd_aps) = Inr aps_lower_min"
    and gap: "smps_upper_max < aps_lower_min"
    and densities: "\<forall>r\<in>set sd_smps \<union> set sd_aps. dndlogd r \<noteq> None"
  shows "filter original out
           = map recount (sort_key dpes (map (\<lambda>r. r\<lparr>flag := Smps\<rparr>) sd_smps
                                          @ map (\<lambda>r. r\<lparr>flag := Aps\<rparr>) sd_aps))"
proof -
  let ?aps = "map (\<lambda>r. r\<lparr>flag := Aps\<rparr>) sd_aps" and ?smps = "map (\<lambda>r. r\<lparr>flag := Smps\<rparr>) sd_smps"
  let ?X = "?smps @ ?aps"
  from combine_gap_branch_result [OF result ranges gap]
  obtain Y where Y: "interpolate_gap_branch ?smps ?aps ?X = Inr Y"
    and out: "out = recompute_modified Y" by blast
  from interpolate_gap_branch_result [OF Y] obtain I Z where
    I: "\<forall>r\<in>set I. flag r = Interpolated"
    and Z: "interpolate_dndlogd_gap (sort_key dpes (?X @ I)) 3 = Inr Z"
    and YZ: "Y = map recount Z" by blast
  have X: "\<forall>r\<in>set ?X. original r \<and> dndlogd r \<noteq> None"
    using densities by (auto simp: original_def)
  have kept: "filter original Z = sort_key dpes ?X"
    by (rule gap_fill_keeps_original_rows [OF Z X I])
  show ?thesis
    unfolding out YZ original_recompute_modified original_recount kept ..
qed

theorem combine_gap_fill_recounts_every_bin_witness:
  "combine_SMPS_APS_sd decade_example_aps decade_example_smps False True
   = Inr [mk_bin Smps 33 6 60 10 10, mk_bin Smps 330 60 600 20 20, mk_bin Smps 3300 600 6000 30 30,
          mk_bin Interpolated 33000 6000 60000 (250 / 11) (250 / 11),
          mk_bin Aps 330000 60000 600000 40 40, mk_bin Aps 3300000 600000 6000000 50 50,
          mk_bin Aps 33000000 6000000 60000000 60 60]
   \<and> filter original
       [mk_bin Smps 33 6 60 10 10, mk_bin Smps 330 60 600 20 20, mk_bin Smps 3300 600 6000 30 30,
        mk_bin Interpolated 33000 6000 60000 (250 / 11) (250 / 11),
        mk_bin Aps 330000 60000 600000 40 40, mk_bin Aps 3300000 600000 6000000 50 50,
        mk_bin Aps 33000000 6000000 60000000 60 60]
     = map recount (decade_example_smps @ decade_example_aps)"
proof -
  let ?out = "[mk_bin Smps 33 6 60 10 10, mk_bin Smps 330 60 600 20 20, mk_bin Smps 3300 600 6000 30 30,
        mk_bin Interpolated 33000 6000 60000 (250 / 11) (250 / 11),
        mk_bin Aps 330000 60000 600000 40 40, mk_bin Aps 3300000 600000 6000000 50 50,
        mk_bin Aps 33000000 6000000 60000000 60 60]"
  have result: "combine_SMPS_APS_sd decade_example_aps decade_example_smps False True = Inr ?out"
    by (rule combine_decade_example)
  have ranges: "py_max (map dpes_upper decade_example_smps) = Inr 6000"
    "py_min (map dpes_lower decade_example_aps) = Inr 60000"
    by (simp_all add: py_max_def py_min_def decade_example_smps_def decade_example_aps_def mk_bin_def)
  have gap: "(6000::real) < 60000" by simp
  have densities: "\<forall>r\<in>set decade_example_smps \<union> set decade_example_aps. dndlogd r \<noteq> None"
    by (simp add: decade_example_smps_def decade_example_aps_def mk_bin_def)
  have sorted: "sort_key dpes (map (\<lambda>r. r\<lparr>flag := Smps\<rparr>) decade_example_smps
                  @ map (\<lambda>r. r\<lparr>flag := Aps\<rparr>) decade_example_aps)
                = decade_example_smps @ decade_example_aps"
    by (simp add: decade_example_smps_def decade_example_aps_def mk_bin_def)
  from combine_gap_fill_recounts_every_bin [OF result ranges gap densities]
  have "filter original ?out = map recount (decade_example_smps @ decade_example_aps)"
    by (simp only: sorted)
  then show ?thesis using result by blast
qed

subsection \<open>The window of the anchors\<close>

lemma log10_more: "log10 100000000000 = 11"
  using log10_pow [of 11] by simp

lemma window_example_frame_built:
  "sort_key dpes
     ((map (\<lambda>r. r\<lparr>flag := Smps\<rparr>) window_example_smps @ map (\<lambda>r. r\<lparr>flag := Aps\<rparr>) window_example_aps)
      @ map2 (\<lambda>l u. \<lparr>flag = Interpolated, dpes = (l + u) / 2, dpes_lower = l,
                       dpes_upper = u, dn = None, dndlogd = None\<rparr>) [100000] [1000000])
   = window_example_frame"
  by (simp add: window_example_frame_def window_example_smps_def window_example_aps_def mk_bin_def)

lemma window_example_grid:
  "get_bin_boundaries_in_interval 100000 1000000
     (get_interpol_resolution window_example_smps window_example_aps)
   = Inr ([100000], [1000000])"
  by (simp add: window_example_smps_def window_example_aps_def get_interpol_resolution_def
        get_channel_resolution_def get_bin_boundaries_in_interval_def logspace_def py_round_1
        log10_values log10_more mk_bin_def Let_def)

lemma edge_window_rows:
  "w \<le> idx \<Longrightarrow> idx < length T \<Longrightarrow> length (loc_slice (int idx - int w) (int idx) T) = Suc w"
  "idx + w < length T \<Longrightarrow> length (loc_slice (int idx) (int idx + int w) T) = Suc w"
  by (simp_all add: loc_slice_def nat_diff_distrib' nat_add_distrib)

lemma window_example_density:
  "map_sum id (\<lambda>out. dndlogd (out ! 5))
     (combine_SMPS_APS_sd window_example_aps window_example_smps True True) = Inr (Some (1375 / 37))"
  by (simp add: window_example_smps_def window_example_aps_def gap_eval merge_eval combine_eval
        log10_more)

text \<open>
  C5. With \<open>edge_average_window = 3\<close> the two label slices of lines 98 and 99 run from
  \<open>idx - 3\<close> to \<open>idx\<close> and from \<open>idx\<close> to \<open>idx + 3\<close>, both ends included: four rows
  where the frame has them. In the window example the SMPS densities are 10 to 50 and the
  APS densities 60 to 100; the anchors are the means of four of them, 35 and 75 (the last
  three and the first three would give 40 and 70), and the combiner gives the new bin the
  density 1375/37 = 35 + (75 - 35) * (550000 - 10000) / (10000000 - 10000).
\<close>

theorem edge_anchor_window_is_four_bins:
  "edge_bin_min_idx window_example_frame = Inr 4
   \<and> edge_bin_min_dndlogd_avg window_example_frame 4 3 = Some ((20 + 30 + 40 + 50) / 4)
   \<and> edge_bin_max_idx window_example_frame = Inr 6
   \<and> edge_bin_max_dndlogd_avg window_example_frame 6 3 = Some ((60 + 70 + 80 + 90) / 4)
   \<and> map_sum id (\<lambda>out. dndlogd (out ! 5))
         (combine_SMPS_APS_sd window_example_aps window_example_smps True True)
       = Inr (Some (1375 / 37))"
proof -
  have "edge_bin_min_idx window_example_frame = Inr 4
   \<and> edge_bin_min_dndlogd_avg window_example_frame 4 3 = Some ((20 + 30 + 40 + 50) / 4)
   \<and> edge_bin_max_idx window_example_frame = Inr 6
   \<and> edge_bin_max_dndlogd_avg window_example_frame 6 3 = Some ((60 + 70 + 80 + 90) / 4)"
    by (simp add: window_example_frame_def window_example_smps_def window_example_aps_def
        edge_bin_min_idx_def edge_bin_max_idx_def idxmax_def idxmin_def
        edge_bin_min_dndlogd_avg_def edge_bin_max_dndlogd_avg_def loc_slice_def mean_skipna_def
        mk_bin_def enumerate_eq_zip upt_rec)
  then show ?thesis using window_example_density by blast
qed

end
